theory Spec2Isabelle
  imports Main "HOL-Library.Word"
begin

unbundle bit_operations_syntax

section \<open>Data model of \<^verbatim>\<open>WebSocket.h\<close>\<close>

type_synonym byte = "8 word"

text \<open>
  The three enumerations of the header. The first constructor of \<^verbatim>\<open>WebSocketState\<close>
  is \<^verbatim>\<open>None\<close> in the source; it carries a suffix here because \<open>None\<close> is the
  constructor of \<open>option\<close>.
\<close>

datatype WebSocketState = None_state | Handshake | Open | Closed | Error

datatype WebSocketNextAction =
  ReadOpcodeAnd1ByteLength | Read2ByteLength | Read8ByteLength | ReadMask | ReadPayload

datatype WebSocketNextPayload = Data | Ping | Pong

text \<open>
  The private fields of \<^verbatim>\<open>class WebSocket\<close>. \<^verbatim>\<open>QByteArray\<close> is a list of bytes, and a
  null \<^verbatim>\<open>QByteArray\<close> (the accept token before a key was seen) is \<open>None\<close>.
  The field \<^verbatim>\<open>mask\<close> is called \<open>mask_key\<close>, since \<open>mask\<close> is a constant of the word
  library. \<^verbatim>\<open>quint8\<close> and \<^verbatim>\<open>quint64\<close> are words of that width, so every \<^verbatim>\<open>+=\<close>
  and \<^verbatim>\<open>-=\<close> wraps as in the source.
\<close>

record WebSocket =
  wsState :: WebSocketState
  webSocketAccept :: "byte list option"
  mask_key :: "byte list"
  maskIndex :: "8 word"
  buffers :: "byte list list"
  bytesInBuffers :: "64 word"
  nextAction :: WebSocketNextAction
  nextLength :: "64 word"
  buffersFirstConsumed :: "64 word"
  nextPayload :: WebSocketNextPayload

text \<open>
  The transport (\<^verbatim>\<open>QSslSocket\<close>) is an external collaborator. The engine uses it as a
  queue of received bytes that have not been read yet, and a sink of written bytes.
  \<^verbatim>\<open>bytesAvailable()\<close> is the length of the queue, \<^verbatim>\<open>read(n)\<close> with \<open>n\<close> bytes
  available removes and returns the first \<open>n\<close> of them, \<^verbatim>\<open>write\<close> appends to the sink;
  \<^verbatim>\<open>flush()\<close> changes neither. Lengths are natural numbers: the queue and every array
  the transport hands over are within the sizes Qt's containers can hold (a
  \<^verbatim>\<open>QByteArray\<close> has an \<^verbatim>\<open>int\<close> size), so that the conversions between \<^verbatim>\<open>int\<close>,
  \<^verbatim>\<open>qint64\<close> and \<^verbatim>\<open>quint64\<close> at the calls of the transport keep the number. The total
  of the output buffer is not so bounded, and the conversion of it where the engine
  makes an array of its own is written out (\<open>read_qba\<close>).
\<close>

record QSslSocket =
  readBuffer :: "byte list"
  written :: "byte list"

definition bytesAvailable_sock :: "QSslSocket \<Rightarrow> nat" where
  "bytesAvailable_sock s = length (readBuffer s)"

definition read_sock :: "nat \<Rightarrow> QSslSocket \<Rightarrow> byte list \<times> QSslSocket" where
  "read_sock n s = (take n (readBuffer s), s\<lparr>readBuffer := drop n (readBuffer s)\<rparr>)"

definition write_sock :: "byte list \<Rightarrow> QSslSocket \<Rightarrow> QSslSocket" where
  "write_sock bs s = s\<lparr>written := written s @ bs\<rparr>"

section \<open>The masking transform\<close>

text \<open>
  \<^verbatim>\<open>WebSocket::unmask(char *data, quint64 len)\<close>: the loop over the \<open>len\<close> bytes of
  \<open>data\<close>, one equation per iteration. Both call sites pass an array together with its
  own length, so the pair is the byte list. The rolling index is a field of the
  object and survives the call. The key is an array of four bytes in the source, read
  at the index; the engine sets the index to 0 with each new key and the loop keeps it
  below 4 (\<open>unmask_index\<close> below).
\<close>

primrec unmask :: "byte list \<Rightarrow> WebSocket \<Rightarrow> byte list \<times> WebSocket" where
  "unmask [] ws = ([], ws)"
| "unmask (d # ds) ws =
     (let d' = d XOR (mask_key ws ! unat (maskIndex ws));
          i = maskIndex ws + 1;
          ws' = ws\<lparr>maskIndex := (if i = 4 then 0 else i)\<rparr>;
          (ds', ws'') = unmask ds ws'
      in (d' # ds', ws''))"

section \<open>Writing frames\<close>

text \<open>
  \<^verbatim>\<open>qFromBigEndian\<close> and \<^verbatim>\<open>qToBigEndian\<close> of \<^verbatim>\<open>QtEndian\<close>: a word of \<open>8 * n\<close> bits is
  \<open>n\<close> bytes, most significant byte first.
\<close>

definition qFromBigEndian :: "byte list \<Rightarrow> 'a::len word" where
  "qFromBigEndian bs = foldl (\<lambda>acc b. push_bit 8 acc OR ucast b) 0 bs"

definition qToBigEndian :: "'a::len word \<Rightarrow> byte list" where
  "qToBigEndian w = map (\<lambda>i. ucast (drop_bit (8 * i) w)) (rev [0 ..< LENGTH('a) div 8])"

definition msgHeader :: byte where
  "msgHeader = 0b10000010"

definition pongHeader :: byte where
  "pongHeader = 0x0A OR 0b10000000"

text \<open>
  \<^verbatim>\<open>WebSocket::writeLength\<close>. The first branch narrows \<open>length\<close> to a \<^verbatim>\<open>char\<close>, the
  second to a \<^verbatim>\<open>quint16\<close>; both conversions keep the low bits.
\<close>

definition writeLength :: "64 word \<Rightarrow> QSslSocket \<Rightarrow> QSslSocket" where
  "writeLength length' sock =
     (if length' \<le> 125 then write_sock [ucast length'] sock
      else if length' \<le> 65536 then
        (let sock = write_sock [126] sock;
             length16 = (ucast length' :: 16 word)
         in write_sock (qToBigEndian length16) sock)
      else
        (let sock = write_sock [127] sock
         in write_sock (qToBigEndian length') sock))"

text \<open>
  \<^verbatim>\<open>WebSocket::write\<close>: one unfragmented binary frame, and nothing unless the state is
  \<open>Open\<close>. (The name carries a suffix: \<open>write\<close> is a word of the proof language.)
\<close>

definition write_ws :: "byte list \<Rightarrow> WebSocket \<times> QSslSocket \<Rightarrow> WebSocket \<times> QSslSocket" where
  "write_ws qbaMsg st =
     (let (ws, sock) = st in
      if wsState ws = Open then
        (let sock = write_sock [msgHeader] sock;
             sock = writeLength (of_nat (length qbaMsg)) sock;
             sock = write_sock qbaMsg sock
         in (ws, sock))
      else (ws, sock))"

section \<open>The frame decoder\<close>

text \<open>
  One pass through the body of the \<^verbatim>\<open>while (true)\<close> loop of
  \<^verbatim>\<open>WebSocket::socketReadOpen\<close> either leaves the function (\<^verbatim>\<open>return\<close>) or goes back
  to the head of the loop (\<^verbatim>\<open>break\<close> out of the \<^verbatim>\<open>switch\<close>, or \<^verbatim>\<open>continue\<close>).
\<close>

datatype 'a flow = Return 'a | Continue 'a

text \<open>
  The tail of the first case of the \<^verbatim>\<open>switch\<close>, after the opcode has been classified:
  the mask bit of the second header byte, then its seven length bits.
\<close>

definition readMaskBitAndLength ::
  "byte \<Rightarrow> WebSocket \<Rightarrow> QSslSocket \<Rightarrow> (WebSocket \<times> QSslSocket) flow" where
  "readMaskBitAndLength h1 ws sock =
     (let maskBit = (h1 AND 0b10000000 \<noteq> 0) in
      if \<not> maskBit then Return (ws\<lparr>wsState := Error\<rparr>, sock)
      else
        (let h1 = h1 AND 0b01111111 in
         if h1 \<le> 125 then Continue (ws\<lparr>nextLength := ucast h1, nextAction := ReadMask\<rparr>, sock)
         else if h1 = 126 then Continue (ws\<lparr>nextAction := Read2ByteLength\<rparr>, sock)
         else if h1 = 127 then Continue (ws\<lparr>nextAction := Read8ByteLength\<rparr>, sock)
         else Return (ws\<lparr>wsState := Error\<rparr>, sock)))"

definition readOpcodeAnd1ByteLength ::
  "WebSocket \<Rightarrow> QSslSocket \<Rightarrow> (WebSocket \<times> QSslSocket) flow" where
  "readOpcodeAnd1ByteLength ws sock =
     (if bytesAvailable_sock sock < 2 then Return (ws, sock)
      else
        (let (headerBuffer, sock) = read_sock 2 sock;
             h0 = (headerBuffer ! 0) AND 0b00001111;
             h1 = headerBuffer ! 1
         in
         if h0 \<le> 0x02 then readMaskBitAndLength h1 (ws\<lparr>nextPayload := Data\<rparr>) sock
         else if h0 = 0x08 then
           (let h0 = h0 OR 0b10000000;
                h1 = 0;
                sock = write_sock [h0, h1] sock
            in Return (ws\<lparr>wsState := Closed\<rparr>, sock))
         else if h0 = 0x09 then readMaskBitAndLength h1 (ws\<lparr>nextPayload := Ping\<rparr>) sock
         else if h0 = 0x0A then readMaskBitAndLength h1 (ws\<lparr>nextPayload := Pong\<rparr>) sock
         else Return (ws\<lparr>wsState := Error\<rparr>, sock)))"

text \<open>
  The payload case. \<open>iAvailable\<close> is a \<^verbatim>\<open>qint64\<close> that holds the number of queued
  bytes, so the comparisons with the 64-bit \<open>nextLength\<close> are comparisons of
  natural numbers.
\<close>

definition readPayload ::
  "WebSocket \<Rightarrow> QSslSocket \<Rightarrow> (WebSocket \<times> QSslSocket) flow" where
  "readPayload ws sock =
     (let iAvailable = bytesAvailable_sock sock in
      case nextPayload ws of
        Pong \<Rightarrow>
          if unat (nextLength ws) \<le> iAvailable then
            (let (skipped, sock) = read_sock (unat (nextLength ws)) sock
             in Continue (ws\<lparr>nextAction := ReadOpcodeAnd1ByteLength\<rparr>, sock))
          else Return (ws, sock)
      | Ping \<Rightarrow>
          if unat (nextLength ws) \<le> iAvailable then
            (let (pingData, sock) = read_sock (unat (nextLength ws)) sock;
                 (pingData, ws) = unmask pingData ws;
                 sock = write_sock [pongHeader] sock;
                 sock = writeLength (of_nat (length pingData)) sock;
                 sock = write_sock pingData sock
             in Continue (ws\<lparr>nextAction := ReadOpcodeAnd1ByteLength\<rparr>, sock))
          else Return (ws, sock)
      | Data \<Rightarrow>
          if nextLength ws = 0 then Continue (ws\<lparr>nextAction := ReadOpcodeAnd1ByteLength\<rparr>, sock)
          else if iAvailable = 0 then Return (ws, sock)
          else
            (let read = (if unat (nextLength ws) < iAvailable then unat (nextLength ws)
                         else iAvailable);
                 (data, sock) = read_sock read sock;
                 ws = ws\<lparr>nextLength := nextLength ws - of_nat read\<rparr>;
                 (data, ws) = unmask data ws;
                 ws = ws\<lparr>buffers := buffers ws @ [data]\<rparr>;
                 ws = ws\<lparr>bytesInBuffers := bytesInBuffers ws + of_nat read\<rparr>
             in Continue (ws, sock)))"

definition openStep :: "WebSocket \<times> QSslSocket \<Rightarrow> (WebSocket \<times> QSslSocket) flow" where
  "openStep st =
     (let (ws, sock) = st; iAvailable = bytesAvailable_sock sock in
      case nextAction ws of
        ReadOpcodeAnd1ByteLength \<Rightarrow> readOpcodeAnd1ByteLength ws sock
      | Read2ByteLength \<Rightarrow>
          if iAvailable < 2 then Return (ws, sock)
          else
            (let (lengthBuffer2, sock) = read_sock 2 sock
             in Continue (ws\<lparr>nextLength := ucast (qFromBigEndian lengthBuffer2 :: 16 word),
                             nextAction := ReadMask\<rparr>, sock))
      | Read8ByteLength \<Rightarrow>
          if iAvailable < 8 then Return (ws, sock)
          else
            (let (lengthBuffer8, sock) = read_sock 8 sock
             in Continue (ws\<lparr>nextLength := qFromBigEndian lengthBuffer8,
                             nextAction := ReadMask\<rparr>, sock))
      | ReadMask \<Rightarrow>
          if iAvailable < 4 then Return (ws, sock)
          else
            (let (m, sock) = read_sock 4 sock
             in Continue (ws\<lparr>mask_key := m, maskIndex := 0, nextAction := ReadPayload\<rparr>, sock))
      | ReadPayload \<Rightarrow> readPayload ws sock)"

text \<open>
  The loop itself. Every pass that goes round again has read at least one byte,
  except the pass that finishes a payload of length zero, and that one leaves the
  payload step; so the loop always ends.
\<close>

function socketReadOpen :: "WebSocket \<times> QSslSocket \<Rightarrow> WebSocket \<times> QSslSocket" where
  "socketReadOpen st =
     (case openStep st of
        Return st' \<Rightarrow> st'
      | Continue st' \<Rightarrow> socketReadOpen st')"
  by pat_completeness auto
termination
proof (relation "measure (\<lambda>(ws, sock). 2 * length (readBuffer sock) +
                   (if nextAction ws = ReadPayload then 1 else 0))")
  show "wf (measure (\<lambda>(ws, sock). 2 * length (readBuffer sock) +
                   (if nextAction ws = ReadPayload then 1 else 0)))"
    by simp
next
  fix st st' :: "WebSocket \<times> QSslSocket"
  assume step: "openStep st = Continue st'"
  obtain ws sock where st: "st = (ws, sock)" by (cases st)
  obtain ws' sock' where st': "st' = (ws', sock')" by (cases st')
  have "2 * length (readBuffer sock') + (if nextAction ws' = ReadPayload then 1 else 0)
        < 2 * length (readBuffer sock) + (if nextAction ws = ReadPayload then 1 else 0)"
  proof (cases "nextAction ws")
    case ReadOpcodeAnd1ByteLength
    with step st st' show ?thesis
      by (auto simp: openStep_def readOpcodeAnd1ByteLength_def readMaskBitAndLength_def
            bytesAvailable_sock_def read_sock_def Let_def split: if_splits)
  next
    case Read2ByteLength
    with step st st' show ?thesis
      by (auto simp: openStep_def bytesAvailable_sock_def read_sock_def Let_def split: if_splits)
  next
    case Read8ByteLength
    with step st st' show ?thesis
      by (auto simp: openStep_def bytesAvailable_sock_def read_sock_def Let_def split: if_splits)
  next
    case ReadMask
    with step st st' show ?thesis
      by (auto simp: openStep_def bytesAvailable_sock_def read_sock_def Let_def split: if_splits)
  next
    case ReadPayload
    with step st st' show ?thesis
      by (auto simp: openStep_def readPayload_def bytesAvailable_sock_def read_sock_def
            write_sock_def writeLength_def Let_def unat_gt_0
            split: if_splits WebSocketNextPayload.splits prod.splits)
  qed
  with st st' show "(st', st) \<in> measure (\<lambda>(ws, sock). 2 * length (readBuffer sock) +
                   (if nextAction ws = ReadPayload then 1 else 0))"
    by simp
qed

declare socketReadOpen.simps [simp del]

section \<open>The output buffer\<close>

text \<open>
  \<^verbatim>\<open>WebSocket::read(char *buf, qint64 maxLen)\<close>. \<open>buf\<close> holds the bytes copied so far
  (\<^verbatim>\<open>memcpy\<close> writes at offset \<open>len\<close>, right behind them). \<open>maxLen\<close> is only ever
  compared with zero or cast to \<^verbatim>\<open>quint64\<close>, so it is kept as the 64-bit pattern.
  The subtraction that gives \<open>remainingInFirst\<close> is unsigned and wraps. \<^verbatim>\<open>memcpy\<close> takes
  \<open>readStep\<close> bytes of the head chunk from the offset on, which lie inside the chunk
  as long as the offset does (\<open>buffer_ok\<close> below). The two overloads of \<^verbatim>\<open>read\<close> are
  \<open>read_buf\<close>, which returns the count and the bytes copied, and \<open>read_qba\<close>.
\<close>

function read_loop ::
  "WebSocket \<Rightarrow> 64 word \<Rightarrow> 64 word \<Rightarrow> byte list \<Rightarrow> 64 word \<times> byte list \<times> WebSocket" where
  "read_loop ws maxLen len buf =
     (if buffers ws = [] then (len, buf, ws)
      else
        (let remainingInFirst = of_nat (length (hd (buffers ws))) - buffersFirstConsumed ws in
         if remainingInFirst = 0 then
           read_loop (ws\<lparr>buffers := tl (buffers ws), buffersFirstConsumed := 0\<rparr>) maxLen len buf
         else if maxLen = 0 then (len, buf, ws)
         else
           (let readStep = (if remainingInFirst < maxLen then remainingInFirst else maxLen);
                readFrom = drop (unat (buffersFirstConsumed ws)) (hd (buffers ws));
                buf' = buf @ take (unat readStep) readFrom;
                maxLen' = maxLen - readStep;
                ws' = ws\<lparr>buffersFirstConsumed := buffersFirstConsumed ws + readStep\<rparr>;
                len' = len + readStep;
                ws'' = ws'\<lparr>bytesInBuffers := bytesInBuffers ws' - readStep\<rparr>
            in read_loop ws'' maxLen' len' buf')))"
  by pat_completeness auto
termination
proof (relation "measure (\<lambda>(ws, maxLen, len, buf). 3 * length (buffers ws) +
         (if (of_nat (length (hd (buffers ws))) :: 64 word) - buffersFirstConsumed ws = 0 then 0
          else if maxLen = 0 then 1 else 2))", goal_cases)
  case 1
  show ?case by simp
next
  case (2 ws maxLen len buf)
  then show ?case by (cases "buffers ws") auto
next
  case (3 ws maxLen len buf remainingInFirst readStep readFrom buf' maxLen' ws' len' ws'')
  then show ?case by (auto simp: algebra_simps)
qed

declare read_loop.simps [simp del]

definition read_buf :: "64 word \<Rightarrow> WebSocket \<Rightarrow> 64 word \<times> byte list \<times> WebSocket" where
  "read_buf maxLen ws = read_loop ws maxLen 0 []"

text \<open>
  \<^verbatim>\<open>WebSocket::read(qint64 maxLen)\<close>. The array is made by
  \<^verbatim>\<open>QByteArray(int size, char ch)\<close>, so the \<^verbatim>\<open>quint64\<close> \<open>target\<close> is converted to
  \<^verbatim>\<open>int\<close> at the call: the low 32 bits, read as a signed number. A size that is not
  positive gives the empty array. The first overload then copies into the array and
  is still told \<open>target\<close>, not the size of the array; if it copies more bytes than the
  array holds, \<^verbatim>\<open>memcpy\<close> writes past its end, which is the error \<open>BufferOverrun\<close>.
  The engine itself is left as the first overload leaves it.
\<close>

datatype error = BufferOverrun

definition read_qba :: "64 word \<Rightarrow> WebSocket \<Rightarrow> (error + byte list) \<times> WebSocket" where
  "read_qba maxLen ws =
     (let target = (if maxLen < bytesInBuffers ws then maxLen else bytesInBuffers ws);
          arraySize = sint (ucast target :: 32 word);
          array = (if arraySize \<le> 0 then [] else replicate (nat arraySize) 0);
          (len, buf, ws) = read_buf target ws
      in (if length buf \<le> length array then Inr (buf @ drop (length buf) array)
          else Inl BufferOverrun,
          ws))"

definition bytesAvailable :: "WebSocket \<Rightarrow> 64 word" where
  "bytesAvailable ws = bytesInBuffers ws"

section \<open>The handshake\<close>

subsection \<open>Library functions: SHA-1 and Base64\<close>

text \<open>
  \<^verbatim>\<open>QCryptographicHash::hash(_, Sha1)\<close> and \<^verbatim>\<open>QByteArray::toBase64()\<close> belong to Qt, not
  to this repository. They compute the standard functions, which are written out
  here from their standards: SHA-1 from FIPS 180-4 (padding, sixteen big-endian words
  per 64-byte block, the message schedule kept as a window of sixteen words, eighty
  rounds), and Base64 from RFC 4648 (standard alphabet, with padding).
\<close>

definition bytes_of :: "string \<Rightarrow> byte list" where
  "bytes_of s = map of_char s"

definition rotl32 :: "nat \<Rightarrow> 32 word \<Rightarrow> 32 word" where
  "rotl32 n w = push_bit n w OR drop_bit (32 - n) w"

definition sha1_pad :: "byte list \<Rightarrow> byte list" where
  "sha1_pad m = m @ [0x80] @ replicate ((119 - length m mod 64) mod 64) 0
                  @ qToBigEndian (of_nat (8 * length m) :: 64 word)"

primrec sha1_blocks :: "nat \<Rightarrow> byte list \<Rightarrow> byte list list" where
  "sha1_blocks 0 m = []"
| "sha1_blocks (Suc n) m = take 64 m # sha1_blocks n (drop 64 m)"

fun sha1_words :: "byte list \<Rightarrow> 32 word list" where
  "sha1_words (b0 # b1 # b2 # b3 # bs) = qFromBigEndian [b0, b1, b2, b3] # sha1_words bs"
| "sha1_words bs = []"

definition sha1_f :: "nat \<Rightarrow> 32 word \<Rightarrow> 32 word \<Rightarrow> 32 word \<Rightarrow> 32 word" where
  "sha1_f t b c d =
     (if t < 20 then (b AND c) OR (NOT b AND d)
      else if t < 40 then b XOR c XOR d
      else if t < 60 then (b AND c) OR (b AND d) OR (c AND d)
      else b XOR c XOR d)"

definition sha1_K :: "nat \<Rightarrow> 32 word" where
  "sha1_K t = (if t < 20 then 0x5A827999 else if t < 40 then 0x6ED9EBA1
               else if t < 60 then 0x8F1BBCDC else 0xCA62C1D6)"

type_synonym sha1_state = "32 word \<times> 32 word \<times> 32 word \<times> 32 word \<times> 32 word"

fun sha1_round :: "nat \<Rightarrow> 32 word \<Rightarrow> sha1_state \<Rightarrow> sha1_state" where
  "sha1_round t wt (a, b, c, d, e) =
     (rotl32 5 a + sha1_f t b c d + e + sha1_K t + wt, a, rotl32 30 b, c, d)"

definition sha1_next :: "32 word list \<Rightarrow> 32 word list" where
  "sha1_next w = tl w @ [rotl32 1 (w ! 13 XOR w ! 8 XOR w ! 2 XOR w ! 0)]"

fun sha1_rounds :: "nat \<Rightarrow> nat \<Rightarrow> 32 word list \<Rightarrow> sha1_state \<Rightarrow> sha1_state" where
  "sha1_rounds 0 t w s = s"
| "sha1_rounds (Suc n) t w s = sha1_rounds n (Suc t) (sha1_next w) (sha1_round t (hd w) s)"

fun sha1_block :: "sha1_state \<Rightarrow> byte list \<Rightarrow> sha1_state" where
  "sha1_block (h0, h1, h2, h3, h4) blk =
     (case sha1_rounds 80 0 (sha1_words blk) (h0, h1, h2, h3, h4) of
        (a, b, c, d, e) \<Rightarrow> (h0 + a, h1 + b, h2 + c, h3 + d, h4 + e))"

definition sha1 :: "byte list \<Rightarrow> byte list" where
  "sha1 m =
     (let p = sha1_pad m in
      case foldl sha1_block (0x67452301, 0xEFCDAB89, 0x98BADCFE, 0x10325476, 0xC3D2E1F0)
             (sha1_blocks (length p div 64) p) of
        (h0, h1, h2, h3, h4) \<Rightarrow> concat (map qToBigEndian [h0, h1, h2, h3, h4]))"

definition base64_char :: "nat \<Rightarrow> byte" where
  "base64_char i =
     bytes_of ''ABCDEFGHIJKLMNOPQRSTUVWXYZabcdefghijklmnopqrstuvwxyz0123456789+/'' ! i"

fun toBase64 :: "byte list \<Rightarrow> byte list" where
  "toBase64 [] = []"
| "toBase64 [a] =
     [base64_char (unat (drop_bit 2 a)),
      base64_char (unat (push_bit 4 (a AND 0x03))), 0x3D, 0x3D]"
| "toBase64 [a, b] =
     [base64_char (unat (drop_bit 2 a)),
      base64_char (unat (push_bit 4 (a AND 0x03) OR drop_bit 4 b)),
      base64_char (unat (push_bit 2 (b AND 0x0F))), 0x3D]"
| "toBase64 (a # b # c # bs) =
     [base64_char (unat (drop_bit 2 a)),
      base64_char (unat (push_bit 4 (a AND 0x03) OR drop_bit 4 b)),
      base64_char (unat (push_bit 2 (b AND 0x0F) OR drop_bit 6 c)),
      base64_char (unat (c AND 0x3F))] @ toBase64 bs"

subsection \<open>Library functions: strings\<close>

text \<open>
  A \<^verbatim>\<open>QString\<close> is a sequence of 16-bit code units. The four string operations the
  handshake calls are Qt's as well, and what they do outside ASCII (malformed UTF-8,
  Unicode case folding, Unicode white space) depends on the Qt version. The handshake
  takes them as a parameter, so that every statement about it holds for whatever
  they compute; \<open>startsWith\<close> is the case-insensitive test.
\<close>

type_synonym QString = "16 word list"

record QStringOps =
  fromUtf8 :: "byte list \<Rightarrow> QString"
  toUtf8 :: "QString \<Rightarrow> byte list"
  startsWith :: "QString \<Rightarrow> string \<Rightarrow> bool"
  trimmed :: "QString \<Rightarrow> QString"

text \<open>
  On ASCII text the four operations are fixed: one code unit per byte, letters
  compared regardless of case, and the six ASCII white-space characters trimmed.
  \<open>ascii_ops\<close> is that behaviour; it is used where a concrete header line is run.
\<close>

definition toLower_ascii :: "16 word \<Rightarrow> 16 word" where
  "toLower_ascii c = (if 0x41 \<le> c \<and> c \<le> 0x5A then c + 0x20 else c)"

definition isSpace_ascii :: "16 word \<Rightarrow> bool" where
  "isSpace_ascii c = (c = 0x20 \<or> (0x09 \<le> c \<and> c \<le> 0x0D))"

definition ascii_ops :: QStringOps where
  "ascii_ops =
     \<lparr> fromUtf8 = map ucast,
       toUtf8 = map ucast,
       startsWith = (\<lambda>line s. length s \<le> length line \<and>
          map toLower_ascii (take (length s) line) = map (toLower_ascii \<circ> of_char) s),
       trimmed = (\<lambda>line. rev (dropWhile isSpace_ascii (rev (dropWhile isSpace_ascii line)))) \<rparr>"

subsection \<open>The handshake scanner\<close>

definition magicSequence :: "byte list" where
  "magicSequence = bytes_of ''258EAFA5-E914-47DA-95CA-C5AB0DC85B11''"

definition serverHeader :: "byte list" where
  "serverHeader =
     bytes_of ''HTTP/1.1 101 Switching Protocols'' @ [0x0D, 0x0A] @
     bytes_of ''Upgrade: websocket'' @ [0x0D, 0x0A] @
     bytes_of ''Connection: Upgrade'' @ [0x0D, 0x0A] @
     bytes_of ''Sec-WebSocket-Accept: ''"

text \<open>
  \<^verbatim>\<open>canReadLine()\<close> holds when a line feed is queued; \<^verbatim>\<open>readLine()\<close> removes and returns
  the bytes up to and including the first line feed.
\<close>

definition canReadLine_sock :: "QSslSocket \<Rightarrow> bool" where
  "canReadLine_sock s = (0x0A \<in> set (readBuffer s))"

definition readLine_sock :: "QSslSocket \<Rightarrow> byte list \<times> QSslSocket" where
  "readLine_sock s =
     (takeWhile (\<lambda>b. b \<noteq> 0x0A) (readBuffer s) @ [0x0A],
      s\<lparr>readBuffer := tl (dropWhile (\<lambda>b. b \<noteq> 0x0A) (readBuffer s))\<rparr>)"

text \<open>
  The body of the \<^verbatim>\<open>while\<close> loop of \<^verbatim>\<open>WebSocket::socketReadHandshake\<close>, for the line
  that \<^verbatim>\<open>readLine()\<close> has just taken off the transport. \<open>restLength\<close> is an \<^verbatim>\<open>int\<close>,
  and \<^verbatim>\<open>QStringRef(&line, 18, restLength)\<close> is the rest of the line from position 18.
  The two \<^verbatim>\<open>return\<close>s and the \<^verbatim>\<open>break\<close> leave the loop; the other paths go round.
\<close>

definition handshakeLine ::
  "QStringOps \<Rightarrow> byte list \<Rightarrow> WebSocket \<times> QSslSocket \<Rightarrow> (WebSocket \<times> QSslSocket) flow" where
  "handshakeLine qt lineAscii st =
     (let (ws, sock) = st;
          line = fromUtf8 qt lineAscii
      in
      if startsWith qt line ''Sec-WebSocket-Key:'' then
        (let restLength = int (length line) - 18 in
         if restLength < 24 + 2 then Return (ws\<lparr>wsState := Error\<rparr>, sock)
         else
           (let keyOnly = toUtf8 qt (trimmed qt (take (nat restLength) (drop 18 line)))
            in Continue
                 (ws\<lparr>webSocketAccept := Some (toBase64 (sha1 (keyOnly @ magicSequence)))\<rparr>,
                  sock)))
      else if length lineAscii = 2 \<and> lineAscii ! 0 = 0x0D \<and> lineAscii ! 1 = 0x0A then
        (case webSocketAccept ws of
           None \<Rightarrow> Return (ws\<lparr>wsState := Error\<rparr>, sock)
         | Some accept \<Rightarrow>
             (let sock = write_sock serverHeader sock;
                  sock = write_sock accept sock;
                  sock = write_sock lineAscii sock;
                  sock = write_sock lineAscii sock
              in Return (ws\<lparr>wsState := Open\<rparr>, sock)))
      else Continue (ws, sock))"

text \<open>The loop: as long as a whole line is queued, take it and run the body on it.\<close>

function socketReadHandshake ::
  "QStringOps \<Rightarrow> WebSocket \<times> QSslSocket \<Rightarrow> WebSocket \<times> QSslSocket" where
  "socketReadHandshake qt (ws, sock) =
     (if \<not> canReadLine_sock sock then (ws, sock)
      else
        (case handshakeLine qt (fst (readLine_sock sock)) (ws, snd (readLine_sock sock)) of
           Return st' \<Rightarrow> st'
         | Continue st' \<Rightarrow> socketReadHandshake qt st'))"
  by pat_completeness auto
termination
proof (relation "measure (\<lambda>(qt, ws, sock). length (readBuffer sock))", goal_cases)
  case 1
  show ?case by simp
next
  case (2 qt ws sock st')
  then have "dropWhile (\<lambda>b. b \<noteq> 0x0A) (readBuffer sock) \<noteq> []"
    by (simp add: canReadLine_sock_def)
  then have "length (tl (dropWhile (\<lambda>b. b \<noteq> 0x0A) (readBuffer sock)))
             < length (dropWhile (\<lambda>b. b \<noteq> 0x0A) (readBuffer sock))"
    by simp
  also have "\<dots> \<le> length (readBuffer sock)"
    by (rule length_dropWhile_le)
  finally have shorter: "length (readBuffer (snd (readLine_sock sock))) < length (readBuffer sock)"
    by (simp add: readLine_sock_def)
  from 2 have "snd st' = snd (readLine_sock sock)"
    by (auto simp: handshakeLine_def Let_def split: if_splits option.splits)
  with shorter show ?case
    by (cases st') simp
qed

declare socketReadHandshake.simps [simp del]

section \<open>The entry point\<close>

text \<open>\<^verbatim>\<open>WebSocket::socketRead\<close>: three tests of the state in a row, each on the state the
  one before has left.\<close>

definition socketRead ::
  "QStringOps \<Rightarrow> WebSocket \<times> QSslSocket \<Rightarrow> WebSocket \<times> QSslSocket" where
  "socketRead qt st =
     (let (ws, sock) = st;
          ws = (if wsState ws = None_state then ws\<lparr>wsState := Handshake\<rparr> else ws);
          (ws, sock) = (if wsState ws = Handshake then socketReadHandshake qt (ws, sock)
                        else (ws, sock));
          (ws, sock) = (if wsState ws = Open then socketReadOpen (ws, sock) else (ws, sock))
      in (ws, sock))"

text \<open>The event loop hands newly arrived bytes to the transport and then calls \<open>socketRead\<close>.\<close>

definition receive :: "byte list \<Rightarrow> QSslSocket \<Rightarrow> QSslSocket" where
  "receive bs sock = sock\<lparr>readBuffer := readBuffer sock @ bs\<rparr>"

definition feed :: "QStringOps \<Rightarrow> byte list \<Rightarrow> WebSocket \<times> QSslSocket \<Rightarrow> WebSocket \<times> QSslSocket" where
  "feed qt bs st = socketRead qt (fst st, receive bs (snd st))"

definition feed_all ::
  "QStringOps \<Rightarrow> byte list list \<Rightarrow> WebSocket \<times> QSslSocket \<Rightarrow> WebSocket \<times> QSslSocket" where
  "feed_all qt chunks st = foldl (\<lambda>st c. feed qt c st) st chunks"

section \<open>Notions used in the statements\<close>

text \<open>
  What the consumer of the output buffer can still read: the chunks one after the
  other, without the part of the head chunk that has been read already.
\<close>

definition outputBytes :: "WebSocket \<Rightarrow> byte list" where
  "outputBytes ws = drop (unat (buffersFirstConsumed ws)) (concat (buffers ws))"

text \<open>
  Two states of engine and transport that differ at most in how the decoded bytes are
  cut into chunks of the output buffer.
\<close>

definition same_decoded :: "WebSocket \<times> QSslSocket \<Rightarrow> WebSocket \<times> QSslSocket \<Rightarrow> bool" where
  "same_decoded st st' =
     (snd st = snd st' \<and> (fst st)\<lparr>buffers := []\<rparr> = (fst st')\<lparr>buffers := []\<rparr> \<and>
      concat (buffers (fst st)) = concat (buffers (fst st')))"

text \<open>A state with further chunks put in front of its output buffer.\<close>

definition prefix_buffers ::
  "byte list list \<Rightarrow> WebSocket \<times> QSslSocket \<Rightarrow> WebSocket \<times> QSslSocket" where
  "prefix_buffers B st = ((fst st)\<lparr>buffers := B @ buffers (fst st)\<rparr>, snd st)"

text \<open>
  The number of queued bytes below which a decode step does nothing, read off the
  guards of the \<^verbatim>\<open>switch\<close>: the fixed sizes of the header parts, the whole payload of
  a ping or a pong, and one byte of a data payload that is not finished.
\<close>

definition step_needs :: "WebSocket \<Rightarrow> nat" where
  "step_needs ws =
     (case nextAction ws of
        ReadOpcodeAnd1ByteLength \<Rightarrow> 2
      | Read2ByteLength \<Rightarrow> 2
      | Read8ByteLength \<Rightarrow> 8
      | ReadMask \<Rightarrow> 4
      | ReadPayload \<Rightarrow>
          (case nextPayload ws of
             Data \<Rightarrow> if nextLength ws = 0 then 0 else 1
           | Ping \<Rightarrow> unat (nextLength ws)
           | Pong \<Rightarrow> unat (nextLength ws)))"

text \<open>The number of queued bytes from which a step no longer depends on what follows them.\<close>

definition needs_full :: "WebSocket \<Rightarrow> nat" where
  "needs_full ws =
     (case nextAction ws of
        ReadOpcodeAnd1ByteLength \<Rightarrow> 2
      | Read2ByteLength \<Rightarrow> 2
      | Read8ByteLength \<Rightarrow> 8
      | ReadMask \<Rightarrow> 4
      | ReadPayload \<Rightarrow> unat (nextLength ws))"

text \<open>
  The masking transform without the object around it: the bytes it produces from a
  key and a start index, and the index it ends on.
\<close>

primrec unmask_bytes :: "byte list \<Rightarrow> byte list \<Rightarrow> 8 word \<Rightarrow> byte list" where
  "unmask_bytes [] key i = []"
| "unmask_bytes (d # ds) key i =
     (d XOR key ! unat i) # unmask_bytes ds key (if i + 1 = 4 then 0 else i + 1)"

primrec index_after :: "byte list \<Rightarrow> 8 word \<Rightarrow> 8 word" where
  "index_after [] i = i"
| "index_after (d # ds) i = index_after ds (if i + 1 = 4 then 0 else i + 1)"

text \<open>
  The length header as the specification words it: one byte up to 125; the byte 126
  and two bytes, big-endian, for a length that fits 16 bits; the byte 127 and eight
  bytes, big-endian, otherwise.
\<close>

definition minimal_length_header :: "64 word \<Rightarrow> byte list" where
  "minimal_length_header L =
     (if L \<le> 125 then [ucast L]
      else if L \<le> 65535 then 126 # qToBigEndian (ucast L :: 16 word)
      else 127 # qToBigEndian L)"

text \<open>The opcodes the decoder knows: continuation, text, binary, close, ping and pong.\<close>

definition valid_opcode :: "byte \<Rightarrow> bool" where
  "valid_opcode op = (op \<le> 2 \<or> op = 8 \<or> op = 9 \<or> op = 10)"

text \<open>The connection state a pass through the loop body ends in, whichever way it leaves.\<close>

definition flow_state :: "(WebSocket \<times> QSslSocket) flow \<Rightarrow> WebSocketState" where
  "flow_state f = (case f of Return st \<Rightarrow> wsState (fst st) | Continue st \<Rightarrow> wsState (fst st))"

text \<open>
  The invariant of the output buffer (section 3 of the specification): the running
  total is the number of readable bytes, and the offset lies within the head chunk,
  or is zero when there is none. The total is a 64-bit count, so the buffered bytes
  number less than \<open>2 ^ 64\<close>.
\<close>

definition buffer_ok :: "WebSocket \<Rightarrow> bool" where
  "buffer_ok ws =
     (length (concat (buffers ws)) < 2 ^ 64 \<and>
      (case buffers ws of
         [] \<Rightarrow> buffersFirstConsumed ws = 0
       | b # bs \<Rightarrow> unat (buffersFirstConsumed ws) \<le> length b) \<and>
      unat (bytesInBuffers ws) = length (outputBytes ws))"

text \<open>
  The decoded bytes and the queued bytes together number less than \<open>2 ^ 64\<close>, so that
  the 64-bit total cannot wrap while the queued bytes are decoded.
\<close>

definition room :: "WebSocket \<times> QSslSocket \<Rightarrow> bool" where
  "room st = (length (concat (buffers (fst st))) + length (readBuffer (snd st)) < 2 ^ 64)"

text \<open>
  A sequence of reads, one per maximum length, and the arrays they return; the
  sequence ends at the first read that fails.
\<close>

primrec read_many :: "64 word list \<Rightarrow> WebSocket \<Rightarrow> (error + byte list list) \<times> WebSocket" where
  "read_many [] ws = (Inr [], ws)"
| "read_many (m # ms) ws =
     (case read_qba m ws of
        (Inl e, ws') \<Rightarrow> (Inl e, ws')
      | (Inr r, ws') \<Rightarrow>
          (case read_many ms ws' of
             (Inl e, ws'') \<Rightarrow> (Inl e, ws'')
           | (Inr rs, ws'') \<Rightarrow> (Inr (r # rs), ws'')))"

text \<open>
  The public surface as the caller uses it: bytes arrive and \<open>socketRead\<close> is called,
  a message is written, or the output buffer is read through one of the two overloads.
\<close>

datatype operation =
  SocketRead "byte list" | Write "byte list" | Read "64 word" | ReadInto "64 word"

fun apply_op ::
  "QStringOps \<Rightarrow> operation \<Rightarrow> WebSocket \<times> QSslSocket \<Rightarrow> WebSocket \<times> QSslSocket" where
  "apply_op qt (SocketRead bs) st = feed qt bs st"
| "apply_op qt (Write qbaMsg) st = write_ws qbaMsg st"
| "apply_op qt (Read maxLen) st = (snd (read_qba maxLen (fst st)), snd st)"
| "apply_op qt (ReadInto maxLen) st = (snd (snd (read_buf maxLen (fst st))), snd st)"

definition run ::
  "QStringOps \<Rightarrow> operation list \<Rightarrow> WebSocket \<times> QSslSocket \<Rightarrow> WebSocket \<times> QSslSocket" where
  "run qt ops st = foldl (\<lambda>st op. apply_op qt op st) st ops"

text \<open>
  The order of the connection states: \<open>None\<close>, then \<open>Handshake\<close>, then \<open>Open\<close>, then
  one of \<open>Closed\<close> and \<open>Error\<close>, neither of which lies before the other.
\<close>

fun state_rank :: "WebSocketState \<Rightarrow> nat" where
  "state_rank None_state = 0"
| "state_rank Handshake = 1"
| "state_rank Open = 2"
| "state_rank Closed = 3"
| "state_rank Error = 3"

definition forward :: "WebSocketState \<Rightarrow> WebSocketState \<Rightarrow> bool" where
  "forward s s' = (s' = s \<or> state_rank s < state_rank s')"

section \<open>Example inputs\<close>

text \<open>
  A value-initialised \<^verbatim>\<open>WebSocket\<close> object (every enumeration at its first
  constructor, every counter zero), the same object once the handshake is done, and
  a transport with nothing queued and nothing written.
\<close>

definition ws_init :: WebSocket where
  "ws_init =
     \<lparr> wsState = None_state, webSocketAccept = None, mask_key = [0, 0, 0, 0], maskIndex = 0,
       buffers = [], bytesInBuffers = 0, nextAction = ReadOpcodeAnd1ByteLength,
       nextLength = 0, buffersFirstConsumed = 0, nextPayload = Data \<rparr>"

definition ws_open :: WebSocket where
  "ws_open = ws_init\<lparr>wsState := Open\<rparr>"

definition sock_empty :: QSslSocket where
  "sock_empty = \<lparr> readBuffer = [], written = [] \<rparr>"

text \<open>The masked text frame of RFC 6455, section 5.7: mask key \<open>37 FA 21 3D\<close>, payload "Hello".\<close>

definition hello_key :: "byte list" where
  "hello_key = [0x37, 0xFA, 0x21, 0x3D]"

definition hello_masked :: "byte list" where
  "hello_masked = [0x7F, 0x9F, 0x4D, 0x51, 0x58]"

definition hello_frame :: "byte list" where
  "hello_frame = [0x81, 0x85] @ hello_key @ hello_masked"

text \<open>The same frame as it may arrive: in pieces, one of them empty.\<close>

definition hello_chunks :: "byte list list" where
  "hello_chunks = [[0x81], [0x85, 0x37], [0xFA, 0x21, 0x3D, 0x7F], [], [0x9F, 0x4D, 0x51, 0x58]]"

text \<open>
  A text frame and a close frame without the mask bit; a masked close frame with more
  bytes behind it; and a ping of 65536 zero bytes (extended 64-bit length, zero key).
\<close>

definition unmasked_text_frame :: "byte list" where
  "unmasked_text_frame = [0x81, 0x05] @ bytes_of ''Hello''"

definition unmasked_close_frame :: "byte list" where
  "unmasked_close_frame = [0x88, 0x00]"

definition close_then_more :: "byte list" where
  "close_then_more = [0x88, 0x80, 1, 2, 3, 4] @ hello_frame"

definition ping_65536 :: "byte list" where
  "ping_65536 = [0x89, 0xFF] @ [0, 0, 0, 0, 0, 1, 0, 0] @ [0, 0, 0, 0] @ replicate 65536 0"

text \<open>The engine after it has decoded the frame that arrived in pieces.\<close>

definition ws_hello :: WebSocket where
  "ws_hello = fst (feed_all ascii_ops hello_chunks (ws_open, sock_empty))"

text \<open>
  An output buffer of two chunks of \<open>2 ^ 30\<close> zero bytes, none of them read yet.
\<close>

definition ws_2GiB :: WebSocket where
  "ws_2GiB =
     ws_open\<lparr>buffers := [replicate 1073741824 0, replicate 1073741824 0],
             bytesInBuffers := 0x80000000\<rparr>"

text \<open>
  Header lines: the key of RFC 6455, section 1.3; a key of 25 characters under a
  header name in lower case; a key of 23 characters; and a key of 22 characters.
\<close>

definition CRLF :: "byte list" where
  "CRLF = [0x0D, 0x0A]"

definition sample_key_line :: "byte list" where
  "sample_key_line = bytes_of ''Sec-WebSocket-Key: dGhlIHNhbXBsZSBub25jZQ=='' @ [0x0D, 0x0A]"

definition long_key_line :: "byte list" where
  "long_key_line = bytes_of ''sec-websocket-key: dGhlIHNhbXBsZSBub25jZQ==X'' @ [0x0D, 0x0A]"

definition key23_line :: "byte list" where
  "key23_line = bytes_of ''Sec-WebSocket-Key: dGhlIHNhbXBsZSBub25jZQ='' @ [0x0D, 0x0A]"

definition short_key_line :: "byte list" where
  "short_key_line = bytes_of ''Sec-WebSocket-Key: dGhlIHNhbXBsZSBub25jZQ'' @ [0x0D, 0x0A]"

text \<open>
  A session: the key line, a write that comes too early, the end of the header, a data
  frame, a read, a write, a close frame, and then a frame and a write that come too
  late.
\<close>

definition session :: "operation list" where
  "session =
     [SocketRead sample_key_line, Write [1, 2, 3], SocketRead CRLF, SocketRead hello_frame,
      Read 2, Write [4, 5], SocketRead [0x88, 0x80], SocketRead hello_frame, Write [6]]"

section \<open>Properties of the masking transform\<close>

lemma maskIndex_cases: "(i :: 8 word) < 4 \<Longrightarrow> i = 0 \<or> i = 1 \<or> i = 2 \<or> i = 3"
  by unat_arith

lemma unmask_Cons:
  "unmask (d # ds) ws =
     ((d XOR mask_key ws ! unat (maskIndex ws)) #
        fst (unmask ds (ws\<lparr>maskIndex := (if maskIndex ws + 1 = 4 then 0 else maskIndex ws + 1)\<rparr>)),
      snd (unmask ds (ws\<lparr>maskIndex := (if maskIndex ws + 1 = 4 then 0 else maskIndex ws + 1)\<rparr>)))"
  by (simp add: Let_def case_prod_beta split del: if_split)

lemma unmask_length: "length (fst (unmask d ws)) = length d"
  by (induction d arbitrary: ws) (simp_all add: unmask_Cons del: unmask.simps(2) split del: if_split)

text \<open>The transform changes no field of the object but the rolling index.\<close>

lemma unmask_state: "snd (unmask d ws) = ws\<lparr>maskIndex := maskIndex (snd (unmask d ws))\<rparr>"
proof (induction d arbitrary: ws)
  case Nil
  show ?case by simp
next
  case (Cons x d)
  let ?ws = "ws\<lparr>maskIndex := (if maskIndex ws + 1 = 4 then 0 else maskIndex ws + 1)\<rparr>"
  have "snd (unmask (x # d) ws) = snd (unmask d ?ws)"
    by (simp add: unmask_Cons del: unmask.simps(2) split del: if_split)
  moreover have "snd (unmask d ?ws) = ?ws\<lparr>maskIndex := maskIndex (snd (unmask d ?ws))\<rparr>"
    by (rule Cons.IH)
  ultimately show ?case by (simp split del: if_split)
qed

text \<open>Unmasking a payload in two pieces, the index carried over, is unmasking it at once.\<close>

lemma unmask_append:
  "unmask (a @ b) ws =
     (fst (unmask a ws) @ fst (unmask b (snd (unmask a ws))), snd (unmask b (snd (unmask a ws))))"
  by (induction a arbitrary: ws) (simp_all add: unmask_Cons del: unmask.simps(2) split del: if_split)

lemma unmask_twice: "fst (unmask (fst (unmask d ws)) ws) = d"
  by (induction d arbitrary: ws)
     (simp_all add: unmask_Cons xor.assoc del: unmask.simps(2) split del: if_split)

lemma unmask_index:
  "maskIndex ws < 4 \<Longrightarrow>
   maskIndex (snd (unmask d ws)) < 4 \<and>
   unat (maskIndex (snd (unmask d ws))) = (unat (maskIndex ws) + length d) mod 4"
proof (induction d arbitrary: ws)
  case Nil
  then show ?case by (simp add: word_less_nat_alt)
next
  case (Cons x d)
  let ?i = "maskIndex ws + 1"
  let ?ws = "ws\<lparr>maskIndex := (if ?i = 4 then 0 else ?i)\<rparr>"
  from Cons.prems have c: "maskIndex ws = 0 \<or> maskIndex ws = 1 \<or> maskIndex ws = 2 \<or> maskIndex ws = 3"
    by (rule maskIndex_cases)
  then have lt: "maskIndex ?ws < 4" by auto
  from c have nx: "unat (maskIndex ?ws) = (unat (maskIndex ws) + 1) mod 4" by auto
  have "snd (unmask (x # d) ws) = snd (unmask d ?ws)"
    by (simp add: unmask_Cons del: unmask.simps(2) split del: if_split)
  with Cons.IH [OF lt] nx show ?case
    by (simp add: mod_simps)
qed

text \<open>
  Claim C10. For every byte array \<open>d\<close>, every four-byte mask key and every rolling index
  from 0 to 3: unmasking \<open>d\<close> and then unmasking the result from the same index gives
  \<open>d\<close> back, and one application moves the index forward by the length of \<open>d\<close>
  modulo 4, leaving the key as it was.
\<close>

theorem unmask_involution:
  assumes "length (mask_key ws) = 4" and "maskIndex ws < 4"
  shows "fst (unmask (fst (unmask d ws)) ws) = d \<and>
         unat (maskIndex (snd (unmask d ws))) = (unat (maskIndex ws) + length d) mod 4 \<and>
         mask_key (snd (unmask d ws)) = mask_key ws"
proof -
  have "mask_key (snd (unmask d ws)) = mask_key ws"
    by (subst unmask_state) simp
  with unmask_twice [of d ws] unmask_index [OF assms(2), of d] show ?thesis
    by simp
qed

text \<open>
  The theorem at the frame of RFC 6455: the masked bytes unmask to "Hello", a second
  pass from index 0 restores them, and the index ends at \<open>5 mod 4\<close>.
\<close>

theorem unmask_involution_witness:
  "length (mask_key (ws_open\<lparr>mask_key := hello_key\<rparr>)) = 4 \<and>
   maskIndex (ws_open\<lparr>mask_key := hello_key\<rparr>) < 4 \<and>
   fst (unmask hello_masked (ws_open\<lparr>mask_key := hello_key\<rparr>)) = bytes_of ''Hello'' \<and>
   fst (unmask (bytes_of ''Hello'') (ws_open\<lparr>mask_key := hello_key\<rparr>)) = hello_masked \<and>
   unat (maskIndex (snd (unmask hello_masked (ws_open\<lparr>mask_key := hello_key\<rparr>)))) = 1"
proof -
  let ?ws = "ws_open\<lparr>mask_key := hello_key\<rparr>"
  have h1: "length (mask_key ?ws) = 4"
    by (simp add: hello_key_def)
  have h2: "maskIndex ?ws < 4"
    by (simp add: ws_open_def ws_init_def)
  have e: "fst (unmask hello_masked ?ws) = bytes_of ''Hello''"
    by (simp add: hello_masked_def hello_key_def ws_open_def ws_init_def bytes_of_def Let_def)
  have l: "length hello_masked = 5" "maskIndex ?ws = 0"
    by (simp_all add: hello_masked_def ws_open_def ws_init_def)
  from unmask_involution [OF h1 h2, of hello_masked] h1 h2 e l show ?thesis
    by simp
qed

section \<open>Resumable decoding\<close>

subsection \<open>The masking transform in closed form\<close>

lemma unmask_alt:
  "unmask d ws =
     (unmask_bytes d (mask_key ws) (maskIndex ws), ws\<lparr>maskIndex := index_after d (maskIndex ws)\<rparr>)"
  by (induction d arbitrary: ws) (simp_all add: Let_def del: unmask.simps(2) add: unmask_Cons split del: if_split)

lemma unmask_bytes_append:
  "unmask_bytes (a @ b) key i = unmask_bytes a key i @ unmask_bytes b key (index_after a i)"
  by (induction a arbitrary: i) (simp_all split del: if_split)

lemma index_after_append: "index_after (a @ b) i = index_after b (index_after a i)"
  by (induction a arbitrary: i) (simp_all split del: if_split)

lemma length_unmask_bytes: "length (unmask_bytes d key i) = length d"
  by (induction d arbitrary: i) (simp_all split del: if_split)

subsection \<open>The decoder never looks at the output buffer\<close>

text \<open>
  A step, and so the whole loop, only appends to \<open>buffers\<close>: chunks that are
  there before stay in front of what the run adds.
\<close>

lemma openStep_prefix:
  "openStep (prefix_buffers B st) = map_flow (prefix_buffers B) (openStep st)"
proof -
  obtain ws sock where st: "st = (ws, sock)" by (cases st)
  show ?thesis
  proof (cases "nextAction ws")
    case ReadOpcodeAnd1ByteLength
    then show ?thesis
      by (simp add: st openStep_def readOpcodeAnd1ByteLength_def prefix_buffers_def Let_def
          case_prod_beta readMaskBitAndLength_def)
  next
    case Read2ByteLength
    then show ?thesis 
      by (simp add: st openStep_def prefix_buffers_def Let_def case_prod_beta)
  next
    case Read8ByteLength
    then show ?thesis 
      by (simp add: st openStep_def prefix_buffers_def Let_def case_prod_beta)
  next
    case ReadMask
    then show ?thesis 
      by (simp add: st openStep_def prefix_buffers_def Let_def case_prod_beta)
  next
    case ReadPayload
    then show ?thesis 
      by (cases "nextPayload ws")
         (simp_all add: st openStep_def readPayload_def prefix_buffers_def Let_def case_prod_beta
           unmask_alt)
  qed
qed

lemma socketReadOpen_prefix:
  "socketReadOpen (prefix_buffers B st) = prefix_buffers B (socketReadOpen st)"
proof (induction st rule: socketReadOpen.induct)
  case (1 st)
  show ?case
  proof (cases "openStep st")
    case (Return st')
    then show ?thesis
      by (simp add: socketReadOpen.simps [of st] socketReadOpen.simps [of "prefix_buffers B st"]
            openStep_prefix)
  next
    case (Continue st')
    with 1 [OF Continue] show ?thesis
      by (simp add: socketReadOpen.simps [of st] socketReadOpen.simps [of "prefix_buffers B st"]
            openStep_prefix)
  qed
qed

subsection \<open>Steps and bytes that arrive later\<close>

lemma same_decoded_refl: "same_decoded st st"
  by (simp add: same_decoded_def)

lemma same_decoded_trans: "same_decoded a b \<Longrightarrow> same_decoded b c \<Longrightarrow> same_decoded a c"
  by (simp add: same_decoded_def)

lemma receive_Nil: "receive [] sock = sock"
  by (simp add: receive_def)

lemma socketRead_Open: "wsState ws = Open \<Longrightarrow> socketRead qt (ws, sock) = socketReadOpen (ws, sock)"
  by (simp add: socketRead_def)

lemma socketRead_terminal:
  "wsState ws = Closed \<or> wsState ws = Error \<Longrightarrow> socketRead qt (ws, sock) = (ws, sock)"
  by (auto simp: socketRead_def)

lemma bytesAvailable_receive:
  "bytesAvailable_sock (receive extra sock) = bytesAvailable_sock sock + length extra"
  by (simp add: bytesAvailable_sock_def receive_def)

lemma read_sock_receive:
  "n \<le> bytesAvailable_sock sock \<Longrightarrow>
   read_sock n (receive extra sock) = (fst (read_sock n sock), receive extra (snd (read_sock n sock)))"
  by (simp add: bytesAvailable_sock_def read_sock_def receive_def)

lemma write_sock_receive: "write_sock bs (receive extra sock) = receive extra (write_sock bs sock)"
  by (simp add: write_sock_def receive_def)

lemma writeLength_receive: "writeLength n (receive extra sock) = receive extra (writeLength n sock)"
  by (simp add: writeLength_def write_sock_receive Let_def)

lemma readMaskBitAndLength_receive:
  "readMaskBitAndLength h ws (receive extra sock) =
   map_flow (apsnd (receive extra)) (readMaskBitAndLength h ws sock)"
  by (simp add: readMaskBitAndLength_def Let_def)

lemma readOpcodeAnd1ByteLength_receive:
  assumes "2 \<le> bytesAvailable_sock sock"
  shows "readOpcodeAnd1ByteLength ws (receive extra sock) =
         map_flow (apsnd (receive extra)) (readOpcodeAnd1ByteLength ws sock)"
  using assms
  by (simp add: readOpcodeAnd1ByteLength_def Let_def case_prod_beta bytesAvailable_receive
        read_sock_receive readMaskBitAndLength_receive write_sock_receive)

lemma readPayload_receive:
  assumes "unat (nextLength ws) \<le> bytesAvailable_sock sock"
  shows "readPayload ws (receive extra sock) = map_flow (apsnd (receive extra)) (readPayload ws sock)"
proof (cases "nextPayload ws")
  case Data
  show ?thesis
  proof (cases "nextLength ws = 0")
    case True
    with Data show ?thesis by (simp add: readPayload_def)
  next
    case False
    then have "0 < unat (nextLength ws)" by (simp add: unat_gt_0)
    with assms Data False show ?thesis
      by (simp add: readPayload_def Let_def case_prod_beta bytesAvailable_receive
          read_sock_receive unmask_alt)
  qed
next
  case Ping
  with assms show ?thesis
    by (simp add: readPayload_def Let_def case_prod_beta bytesAvailable_receive
          read_sock_receive unmask_alt write_sock_receive writeLength_receive)
next
  case Pong
  with assms show ?thesis
    by (simp add: readPayload_def Let_def case_prod_beta bytesAvailable_receive read_sock_receive)
qed

text \<open>With all the bytes of the current step queued, bytes queued behind them change nothing.\<close>

lemma openStep_receive:
  assumes "needs_full ws \<le> bytesAvailable_sock sock"
  shows "openStep (ws, receive extra sock) = map_flow (apsnd (receive extra)) (openStep (ws, sock))"
  using assms
  by (cases "nextAction ws")
     (simp_all add: openStep_def needs_full_def Let_def case_prod_beta bytesAvailable_receive
        read_sock_receive readOpcodeAnd1ByteLength_receive readPayload_receive)

text \<open>With fewer bytes queued than the step needs, the step returns and changes nothing.\<close>

lemma openStep_short:
  assumes "bytesAvailable_sock sock < step_needs ws"
  shows "openStep (ws, sock) = Return (ws, sock)"
proof (cases "nextAction ws")
  case ReadPayload
  with assms show ?thesis
    by (cases "nextPayload ws")
       (auto simp: openStep_def step_needs_def readPayload_def split: if_splits)
qed (use assms in \<open>simp_all add: openStep_def step_needs_def readOpcodeAnd1ByteLength_def\<close>)

lemma readMaskBitAndLength_Return:
  "readMaskBitAndLength h ws sock = Return (ws', sock') \<Longrightarrow> wsState ws' = Error"
  by (auto simp: readMaskBitAndLength_def Let_def split: if_splits)

lemma readMaskBitAndLength_Continue:
  "readMaskBitAndLength h ws sock = Continue (ws', sock') \<Longrightarrow> wsState ws' = wsState ws"
  by (auto simp: readMaskBitAndLength_def Let_def split: if_splits)

lemma openStep_full_Return:
  assumes "needs_full ws \<le> bytesAvailable_sock sock" and "openStep (ws, sock) = Return (ws', sock')"
  shows "wsState ws' = Closed \<or> wsState ws' = Error"
proof (cases "nextAction ws")
  case ReadOpcodeAnd1ByteLength
  with assms show ?thesis
    by (auto simp: openStep_def needs_full_def readOpcodeAnd1ByteLength_def Let_def case_prod_beta
          split: if_splits dest: readMaskBitAndLength_Return)
next
  case ReadPayload
  with assms show ?thesis
    by (cases "nextPayload ws")
       (auto simp: openStep_def needs_full_def readPayload_def Let_def case_prod_beta unat_eq_0
          bytesAvailable_sock_def split: if_splits)
qed (use assms in \<open>auto simp: openStep_def needs_full_def Let_def case_prod_beta split: if_splits\<close>)

lemma openStep_Continue_state:
  assumes "openStep (ws, sock) = Continue (ws', sock')"
  shows "wsState ws' = wsState ws"
proof (cases "nextAction ws")
  case ReadOpcodeAnd1ByteLength
  with assms show ?thesis
    by (auto simp: openStep_def readOpcodeAnd1ByteLength_def Let_def case_prod_beta
          split: if_splits dest: readMaskBitAndLength_Continue)
next
  case ReadPayload
  with assms show ?thesis
    by (cases "nextPayload ws")
       (auto simp: openStep_def readPayload_def Let_def case_prod_beta unmask_alt split: if_splits)
qed (use assms in \<open>auto simp: openStep_def Let_def case_prod_beta split: if_splits\<close>)

text \<open>The one step that reads part of what it needs: a data payload longer than what is queued.\<close>

lemma openStep_partial:
  assumes "nextAction ws = ReadPayload" and "nextPayload ws = Data"
    and "n \<le> unat (nextLength ws)" and "0 < n" and "n \<le> length (readBuffer sock)"
    and "n = unat (nextLength ws) \<or> n = length (readBuffer sock)"
  shows "openStep (ws, sock) =
         Continue (ws\<lparr>nextLength := nextLength ws - of_nat n,
                      maskIndex := index_after (take n (readBuffer sock)) (maskIndex ws),
                      buffers := buffers ws @
                        [unmask_bytes (take n (readBuffer sock)) (mask_key ws) (maskIndex ws)],
                      bytesInBuffers := bytesInBuffers ws + of_nat n\<rparr>,
                   sock\<lparr>readBuffer := drop n (readBuffer sock)\<rparr>)"
proof -
  from assms have nz: "nextLength ws \<noteq> 0" by (auto simp: unat_eq_0)
  from assms have rd: "(if unat (nextLength ws) < length (readBuffer sock) then unat (nextLength ws)
             else length (readBuffer sock)) = n" by auto
  from assms have ne: "readBuffer sock \<noteq> []" by auto
  from assms nz ne show ?thesis
    by (simp add: openStep_def readPayload_def Let_def case_prod_beta unmask_alt
          bytesAvailable_sock_def rd read_sock_def)
qed

lemma unat_minus_of_nat:
  "n \<le> unat (w :: 64 word) \<Longrightarrow> unat (w - of_nat n) = unat w - n"
proof -
  assume le: "n \<le> unat w"
  from le have n: "unat (of_nat n :: 64 word) = n" by (rule le_unat_uoi)
  with le have "(of_nat n :: 64 word) \<le> w" by (simp add: word_le_nat_alt)
  then show ?thesis by (simp add: unat_sub n)
qed

lemma same_decoded_prefix:
  "concat B = concat B' \<Longrightarrow> same_decoded (prefix_buffers B st) (prefix_buffers B' st)"
  by (simp add: same_decoded_def prefix_buffers_def)

lemma same_decoded_socketReadOpen:
  assumes "same_decoded a b"
  shows "same_decoded (socketReadOpen a) (socketReadOpen b)"
proof -
  let ?a0 = "((fst a)\<lparr>buffers := []\<rparr>, snd a)"
  have a: "a = prefix_buffers (buffers (fst a)) ?a0"
    by (simp add: prefix_buffers_def)
  have b: "b = prefix_buffers (buffers (fst b)) ?a0"
    using assms by (simp add: prefix_buffers_def same_decoded_def prod_eq_iff)
  have "same_decoded (prefix_buffers (buffers (fst a)) (socketReadOpen ?a0))
                     (prefix_buffers (buffers (fst b)) (socketReadOpen ?a0))"
    using assms by (intro same_decoded_prefix) (simp add: same_decoded_def)
  then have "same_decoded (socketReadOpen (prefix_buffers (buffers (fst a)) ?a0))
                     (socketReadOpen (prefix_buffers (buffers (fst b)) ?a0))"
    by (simp only: socketReadOpen_prefix)
  with a b show ?thesis by simp
qed

lemma same_decoded_wsState: "same_decoded a b \<Longrightarrow> wsState (fst a) = wsState (fst b)"
proof -
  assume "same_decoded a b"
  then have "wsState ((fst a)\<lparr>buffers := []\<rparr>) = wsState ((fst b)\<lparr>buffers := []\<rparr>)"
    by (simp only: same_decoded_def)
  then show ?thesis by simp
qed

text \<open>
  The three situations of a step: everything it needs is queued; less than it can start
  with is queued; or it is a data payload of which a part is queued.
\<close>

lemma step_cases:
  obtains (full) "needs_full ws \<le> bytesAvailable_sock sock"
  | (short) "bytesAvailable_sock sock < step_needs ws"
  | (part) "nextAction ws = ReadPayload" "nextPayload ws = Data"
      "readBuffer sock \<noteq> []" "length (readBuffer sock) < unat (nextLength ws)"
proof (cases "needs_full ws \<le> bytesAvailable_sock sock")
  case True
  then show ?thesis by (rule full)
next
  case nf: False
  show ?thesis
  proof (cases "nextAction ws = ReadPayload \<and> nextPayload ws = Data \<and> readBuffer sock \<noteq> []")
    case True
    with nf show ?thesis
      by (intro part) (simp_all add: needs_full_def bytesAvailable_sock_def)
  next
    case False
    with nf have "bytesAvailable_sock sock < step_needs ws"
      by (cases "nextAction ws"; cases "nextPayload ws")
         (auto simp: needs_full_def step_needs_def bytesAvailable_sock_def)
    then show ?thesis by (rule short)
  qed
qed

subsection \<open>Stopping and going on is running through\<close>

text \<open>
  Run the decoder, queue more bytes, call \<open>socketRead\<close> again: the result is that of
  one run with all the bytes queued, up to the cut of the output buffer. The proof
  follows the loop. A step that has all its bytes is the same step in both runs; a step
  that has too few returns at once, and the second call starts where the one run
  starts; and a data payload read in two parts is two chunks instead of one, with the
  rolling mask index carried from the first part into the second.
\<close>

lemma resume_open:
  "wsState (fst st) = Open \<Longrightarrow>
   same_decoded
     (socketRead qt (fst (socketReadOpen st), receive extra (snd (socketReadOpen st))))
     (socketReadOpen (fst st, receive extra (snd st)))"
proof (induction st rule: socketReadOpen.induct)
  case (1 st)
  obtain ws sock where st: "st = (ws, sock)" by (cases st)
  from "1.prems" st have op: "wsState ws = Open" by simp
  show ?case
  proof (cases ws sock rule: step_cases)
    case full
    note e = openStep_receive [OF full, of extra]
    show ?thesis
    proof (cases "openStep st")
      case (Return st')
      obtain ws' sock' where st': "st' = (ws', sock')" by (cases st')
      from openStep_full_Return [OF full] Return st st'
      have t: "wsState ws' = Closed \<or> wsState ws' = Error" by simp
      have l: "socketReadOpen (ws, sock) = (ws', sock')"
        using Return st st' by (simp add: socketReadOpen.simps [of "(ws, sock)"])
      have r: "socketReadOpen (ws, receive extra sock) = (ws', receive extra sock')"
        using Return st st' e by (simp add: socketReadOpen.simps [of "(ws, receive extra sock)"])
      show ?thesis
        by (simp add: st l r socketRead_terminal [OF t] same_decoded_refl)
    next
      case (Continue st')
      obtain ws' sock' where st': "st' = (ws', sock')" by (cases st')
      from openStep_Continue_state Continue st st' op have op': "wsState (fst st') = Open"
        by fastforce
      have l: "socketReadOpen (ws, sock) = socketReadOpen (ws', sock')"
        using Continue st st' by (simp add: socketReadOpen.simps [of "(ws, sock)"])
      have r: "socketReadOpen (ws, receive extra sock) = socketReadOpen (ws', receive extra sock')"
        using Continue st st' e by (simp add: socketReadOpen.simps [of "(ws, receive extra sock)"])
      from "1.IH" [OF Continue op'] show ?thesis
        by (simp add: st st' l r)
    qed
  next
    case short
    then have "openStep st = Return st" by (simp add: st openStep_short)
    then have l: "socketReadOpen (ws, sock) = (ws, sock)"
      by (simp add: st socketReadOpen.simps [of "(ws, sock)"])
    show ?thesis
      by (simp add: l st socketRead_Open [OF op] same_decoded_refl)
  next
    case part
    let ?rb = "readBuffer sock"
    let ?n = "length ?rb"
    let ?c1 = "unmask_bytes ?rb (mask_key ws) (maskIndex ws)"
    let ?ws1 = "ws\<lparr>nextLength := nextLength ws - of_nat ?n,
                 maskIndex := index_after ?rb (maskIndex ws),
                 buffers := buffers ws @ [?c1],
                 bytesInBuffers := bytesInBuffers ws + of_nat ?n\<rparr>"
    let ?sock0 = "sock\<lparr>readBuffer := []\<rparr>"
    from part have n0: "0 < ?n" by simp
    have s1: "openStep (ws, sock) = Continue (?ws1, ?sock0)"
      using openStep_partial [of ws ?n sock] part n0 by simp
    have len1: "unat (nextLength ?ws1) = unat (nextLength ws) - ?n"
      using part by (simp add: unat_minus_of_nat)
    with part have nz1: "nextLength ?ws1 \<noteq> 0"
      by (metis unat_eq_0 zero_less_diff less_numeral_extra(3))
    have "bytesAvailable_sock ?sock0 < step_needs ?ws1"
      using part nz1 by (simp add: step_needs_def bytesAvailable_sock_def)
    then have s2: "openStep (?ws1, ?sock0) = Return (?ws1, ?sock0)"
      by (rule openStep_short)
    have l: "socketReadOpen (ws, sock) = (?ws1, ?sock0)"
      by (simp add: socketReadOpen.simps [of "(ws, sock)"] s1
            socketReadOpen.simps [of "(?ws1, ?sock0)"] s2)
    have op1: "wsState ?ws1 = Open" using op by simp
    show ?thesis
    proof (cases "extra = []")
      case True
      have "receive [] ?sock0 = ?sock0" "receive [] sock = sock"
        by (simp_all add: receive_def)
      with True l show ?thesis
        by (simp add: st socketRead_Open [OF op1] socketReadOpen.simps [of "(?ws1, ?sock0)"] s2
              same_decoded_refl del: One_nat_def)
    next
      case False
      let ?m = "min (unat (nextLength ?ws1)) (length extra)"
      from False nz1 have m0: "0 < ?m" by (simp add: unat_gt_0)
      have rbL: "readBuffer (receive extra ?sock0) = extra"
        by (simp add: receive_def)
      have rbR: "readBuffer (receive extra sock) = ?rb @ extra"
        by (simp add: receive_def)
      let ?wsL = "?ws1\<lparr>nextLength := nextLength ?ws1 - of_nat ?m,
                 maskIndex := index_after (take ?m extra) (maskIndex ?ws1),
                 buffers := buffers ?ws1 @
                    [unmask_bytes (take ?m extra) (mask_key ?ws1) (maskIndex ?ws1)],
                 bytesInBuffers := bytesInBuffers ?ws1 + of_nat ?m\<rparr>"
      let ?sockL = "(receive extra ?sock0)\<lparr>readBuffer := drop ?m extra\<rparr>"
      have sL: "openStep (?ws1, receive extra ?sock0) = Continue (?wsL, ?sockL)"
        using openStep_partial [of ?ws1 ?m "receive extra ?sock0"] part m0
        by (simp only: rbL) (auto simp: min_def)
      let ?k = "?n + ?m"
      let ?wsR = "ws\<lparr>nextLength := nextLength ws - of_nat ?k,
                 maskIndex := index_after (take ?k (?rb @ extra)) (maskIndex ws),
                 buffers := buffers ws @
                    [unmask_bytes (take ?k (?rb @ extra)) (mask_key ws) (maskIndex ws)],
                 bytesInBuffers := bytesInBuffers ws + of_nat ?k\<rparr>"
      let ?sockR = "(receive extra sock)\<lparr>readBuffer := drop ?k (?rb @ extra)\<rparr>"
      have sR: "openStep (ws, receive extra sock) = Continue (?wsR, ?sockR)"
        using openStep_partial [of ws ?k "receive extra sock"] part m0 len1
        by (simp only: rbR) (auto simp: min_def)
      have sd: "same_decoded (?wsL, ?sockL) (?wsR, ?sockR)"
        by (simp add: same_decoded_def receive_def unmask_bytes_append index_after_append)
      have "same_decoded (socketReadOpen (?wsL, ?sockL)) (socketReadOpen (?wsR, ?sockR))"
        using sd by (rule same_decoded_socketReadOpen)
      then have "same_decoded (socketReadOpen (?ws1, receive extra ?sock0))
                   (socketReadOpen (ws, receive extra sock))"
        by (simp only: socketReadOpen.simps [of "(?ws1, receive extra ?sock0)"] sL
              socketReadOpen.simps [of "(ws, receive extra sock)"] sR flow.case)
      then show ?thesis
        by (simp only: st l fst_conv snd_conv socketRead_Open [OF op1])
    qed
  qed
qed

text \<open>The equations that run the decoder on concrete bytes.\<close>

lemmas decoder_eval =
  feed_def socketRead_def receive_def socketReadOpen.simps openStep_def
  readOpcodeAnd1ByteLength_def readMaskBitAndLength_def readPayload_def
  bytesAvailable_sock_def read_sock_def write_sock_def writeLength_def unmask_alt
  pongHeader_def Let_def

lemma openStep_Return_state:
  assumes "openStep (ws, sock) = Return (ws', sock')"
  shows "wsState ws' = wsState ws \<or> wsState ws' = Closed \<or> wsState ws' = Error"
proof (cases ws sock rule: step_cases)
  case full
  from openStep_full_Return [OF full assms] show ?thesis by simp
next
  case short
  with assms show ?thesis by (simp add: openStep_short)
next
  case part
  with assms openStep_partial [of ws "length (readBuffer sock)" sock] show ?thesis
    by simp
qed

lemma socketReadOpen_state:
  "wsState (fst (socketReadOpen st)) = wsState (fst st) \<or>
   wsState (fst (socketReadOpen st)) = Closed \<or> wsState (fst (socketReadOpen st)) = Error"
proof (induction st rule: socketReadOpen.induct)
  case (1 st)
  show ?case
  proof (cases "openStep st")
    case (Return st')
    with openStep_Return_state [of "fst st" "snd st" "fst st'" "snd st'"] show ?thesis
      by (simp add: socketReadOpen.simps [of st])
  next
    case (Continue st')
    with openStep_Continue_state [of "fst st" "snd st" "fst st'" "snd st'"] "1.IH" [OF Continue]
    show ?thesis
      by (simp add: socketReadOpen.simps [of st])
  qed
qed

lemma receive_receive: "receive c (receive a sock) = receive (a @ c) sock"
  by (simp add: receive_def)

lemma feed_feed:
  assumes "wsState ws = Open"
  shows "same_decoded (feed qt c (feed qt a (ws, sock))) (feed qt (a @ c) (ws, sock))"
  using resume_open [of "(ws, receive a sock)" qt c] assms
  by (simp add: feed_def socketRead_Open receive_receive)

lemma feed_state:
  assumes "wsState ws = Open"
  shows "wsState (fst (feed qt c (ws, sock))) = Open \<or>
         wsState (fst (feed qt c (ws, sock))) = Closed \<or>
         wsState (fst (feed qt c (ws, sock))) = Error"
  using socketReadOpen_state [of "(ws, receive c sock)"] assms
  by (simp add: feed_def socketRead_Open)

lemma feed_same_decoded:
  assumes "same_decoded x y"
    and "wsState (fst x) = Open \<or> wsState (fst x) = Closed \<or> wsState (fst x) = Error"
  shows "same_decoded (feed qt c x) (feed qt c y)"
proof -
  from assms(1) have sy: "wsState (fst y) = wsState (fst x)"
    by (simp add: same_decoded_wsState)
  from assms(1) have r: "same_decoded (fst x, receive c (snd x)) (fst y, receive c (snd y))"
    by (simp add: same_decoded_def)
  show ?thesis
  proof (cases "wsState (fst x) = Open")
    case True
    with sy r show ?thesis
      by (simp add: feed_def socketRead_Open same_decoded_socketReadOpen)
  next
    case False
    with assms(2) sy r show ?thesis
      by (simp add: feed_def socketRead_terminal)
  qed
qed

lemma feed_all_snoc: "feed_all qt (cs @ [c]) st = feed qt c (feed_all qt cs st)"
  by (simp add: feed_all_def)

lemma feed_all_same_decoded:
  assumes "wsState ws = Open" and "chunks \<noteq> []"
  shows "same_decoded (feed_all qt chunks (ws, sock)) (feed qt (concat chunks) (ws, sock))"
  using assms(2)
proof (induction chunks rule: rev_induct)
  case Nil
  then show ?case by simp
next
  case (snoc c cs)
  show ?case
  proof (cases "cs = []")
    case True
    then show ?thesis by (simp add: feed_all_def same_decoded_refl)
  next
    case False
    with snoc.IH
    have ih: "same_decoded (feed_all qt cs (ws, sock)) (feed qt (concat cs) (ws, sock))"
      by simp
    from same_decoded_wsState [OF ih] feed_state [OF assms(1), of qt "concat cs" sock]
    have "wsState (fst (feed_all qt cs (ws, sock))) = Open \<or>
          wsState (fst (feed_all qt cs (ws, sock))) = Closed \<or>
          wsState (fst (feed_all qt cs (ws, sock))) = Error"
      by simp
    with ih have "same_decoded (feed qt c (feed_all qt cs (ws, sock)))
                    (feed qt c (feed qt (concat cs) (ws, sock)))"
      by (rule feed_same_decoded)
    moreover have "same_decoded (feed qt c (feed qt (concat cs) (ws, sock)))
                    (feed qt (concat cs @ c) (ws, sock))"
      using assms(1) by (rule feed_feed)
    ultimately show ?thesis
      by (simp add: feed_all_snoc same_decoded_trans)
  qed
qed

lemma same_decoded_output:
  assumes "same_decoded a b"
  shows "outputBytes (fst a) = outputBytes (fst b) \<and> bytesInBuffers (fst a) = bytesInBuffers (fst b)"
proof -
  from assms have e: "(fst a)\<lparr>buffers := []\<rparr> = (fst b)\<lparr>buffers := []\<rparr>"
    and c: "concat (buffers (fst a)) = concat (buffers (fst b))"
    by (simp_all add: same_decoded_def)
  from e have "buffersFirstConsumed ((fst a)\<lparr>buffers := []\<rparr>) = buffersFirstConsumed ((fst b)\<lparr>buffers := []\<rparr>)"
    and "bytesInBuffers ((fst a)\<lparr>buffers := []\<rparr>) = bytesInBuffers ((fst b)\<lparr>buffers := []\<rparr>)"
    by simp_all
  with c show ?thesis by (simp add: outputBytes_def)
qed

text \<open>
  Claim C1. Start in the state \<open>Open\<close>, at any decode step and with any bytes queued.
  For every sequence of bytes cut into chunks in any way (at least one chunk; chunks
  may be empty), handing over the chunks one by one, with a call of \<open>socketRead\<close>
  after each, leaves the same readable bytes in the output buffer and the same total
  as handing over all bytes before a single call; the two end states differ at most
  in how the output buffer is cut into chunks. And whenever fewer bytes are queued than
  the current step needs, the step returns with engine and transport unchanged: no
  byte is consumed, and the next call is at the same step.
\<close>

theorem resumable_decoding:
  assumes "wsState ws = Open" and "chunks \<noteq> []"
  shows "outputBytes (fst (feed_all qt chunks (ws, sock))) =
           outputBytes (fst (feed qt (concat chunks) (ws, sock))) \<and>
         bytesInBuffers (fst (feed_all qt chunks (ws, sock))) =
           bytesInBuffers (fst (feed qt (concat chunks) (ws, sock))) \<and>
         same_decoded (feed_all qt chunks (ws, sock)) (feed qt (concat chunks) (ws, sock)) \<and>
         (bytesAvailable_sock sock < step_needs ws \<longrightarrow>
            openStep (ws, sock) = Return (ws, sock) \<and> socketRead qt (ws, sock) = (ws, sock))"
proof -
  have sd: "same_decoded (feed_all qt chunks (ws, sock)) (feed qt (concat chunks) (ws, sock))"
    using assms by (rule feed_all_same_decoded)
  have "socketRead qt (ws, sock) = (ws, sock)" if "bytesAvailable_sock sock < step_needs ws"
    using openStep_short [OF that] assms(1)
    by (simp add: socketRead_Open socketReadOpen.simps [of "(ws, sock)"])
  with sd same_decoded_output [OF sd] show ?thesis
    by (simp add: openStep_short)
qed

text \<open>
  The theorem at the frame of RFC 6455 arriving in five pieces: both ways decode
  "Hello"; and the open engine with nothing queued, which needs two bytes, stays put.
\<close>

theorem resumable_decoding_witness:
  "wsState ws_open = Open \<and> hello_chunks \<noteq> [] \<and> concat hello_chunks = hello_frame \<and>
   outputBytes (fst (feed_all ascii_ops hello_chunks (ws_open, sock_empty))) = bytes_of ''Hello'' \<and>
   outputBytes (fst (feed ascii_ops hello_frame (ws_open, sock_empty))) = bytes_of ''Hello'' \<and>
   bytesInBuffers (fst (feed_all ascii_ops hello_chunks (ws_open, sock_empty))) = 5 \<and>
   bytesAvailable_sock sock_empty < step_needs ws_open \<and>
   socketRead ascii_ops (ws_open, sock_empty) = (ws_open, sock_empty)"
proof -
  have h1: "wsState ws_open = Open"
    by (simp add: ws_open_def ws_init_def)
  have h2: "hello_chunks \<noteq> []"
    by (simp add: hello_chunks_def)
  have h3: "bytesAvailable_sock sock_empty < step_needs ws_open"
    by (simp add: bytesAvailable_sock_def sock_empty_def step_needs_def ws_open_def ws_init_def)
  have c: "concat hello_chunks = hello_frame"
    by (simp add: hello_chunks_def hello_frame_def hello_key_def hello_masked_def)
  have e: "feed ascii_ops hello_frame (ws_open, sock_empty) =
           (ws_open\<lparr>mask_key := hello_key, maskIndex := 1, buffers := [bytes_of ''Hello''],
                     bytesInBuffers := 5\<rparr>, sock_empty)"
    by (simp add: decoder_eval hello_frame_def hello_key_def hello_masked_def ws_open_def
          ws_init_def sock_empty_def bytes_of_def)
  from resumable_decoding [OF h1 h2, of ascii_ops sock_empty] h1 h2 h3 c e show ?thesis
    by (simp add: outputBytes_def ws_open_def ws_init_def)
qed

section \<open>Length headers\<close>

lemma qToBigEndian16: "qToBigEndian (w :: 16 word) = [ucast (drop_bit 8 w), ucast w]"
  by (simp add: qToBigEndian_def upt_rec)

lemma qToBigEndian32:
  "qToBigEndian (w :: 32 word) =
     [ucast (drop_bit 24 w), ucast (drop_bit 16 w), ucast (drop_bit 8 w), ucast w]"
  by (simp add: qToBigEndian_def upt_rec)

lemma qToBigEndian64:
  "qToBigEndian (w :: 64 word) =
     [ucast (drop_bit 56 w), ucast (drop_bit 48 w), ucast (drop_bit 40 w), ucast (drop_bit 32 w),
      ucast (drop_bit 24 w), ucast (drop_bit 16 w), ucast (drop_bit 8 w), ucast w]"
  by (simp add: qToBigEndian_def upt_rec)

text \<open>For every length but 65536, \<open>writeLength\<close> writes the header of the specification.\<close>

lemma writeLength_minimal:
  "length' \<noteq> 65536 \<Longrightarrow>
   writeLength length' sock = write_sock (minimal_length_header length') sock"
proof -
  assume ne: "length' \<noteq> 65536"
  have "length' \<le> 65536 \<longleftrightarrow> length' \<le> 65535"
    using ne by unat_arith
  then show ?thesis
    by (simp add: writeLength_def minimal_length_header_def write_sock_def Let_def)
qed

text \<open>
  Claim C4. The length header follows the minimal-size rule: one byte up to 125, \<open>126\<close>
  and 16 bits for a length that fits 16 bits, \<open>127\<close> and 64 bits otherwise.
  At the length 65536, which does not fit 16 bits, the code takes the 16-bit branch
  (its bound is \<open>length <= 65536\<close>) and writes \<open>126\<close> followed by the two low
  bytes, which are zero; the rule asks for \<open>127\<close> and eight bytes.
\<close>

theorem writeLength_65536:
  "written (writeLength 65536 sock_empty) = [126, 0, 0] \<and>
   minimal_length_header 65536 = [127, 0, 0, 0, 0, 0, 1, 0, 0]"
  by (simp add: writeLength_def minimal_length_header_def write_sock_def sock_empty_def Let_def
        qToBigEndian16 qToBigEndian64)

text \<open>The three lengths the specification names, and the largest that fits 16 bits.\<close>

lemma writeLength_examples:
  "written (writeLength 10 sock_empty) = [10]"
  "written (writeLength 200 sock_empty) = [126, 0, 200]"
  "written (writeLength 70000 sock_empty) = [127, 0, 0, 0, 0, 0, 1, 0x11, 0x70]"
  "written (writeLength 65535 sock_empty) = [126, 0xFF, 0xFF]"
  by (simp_all add: writeLength_def write_sock_def sock_empty_def Let_def
        qToBigEndian16 qToBigEndian64)

section \<open>Errors of the decoder\<close>

lemma flow_state_readMaskBitAndLength:
  "flow_state (readMaskBitAndLength h ws sock) = (if h AND 0x80 = 0 then Error else wsState ws)"
proof -
  have "h AND 0x7F \<le> 0x7F" by (rule word_and_le1)
  then have "h AND 0x7F \<le> 125 \<or> h AND 0x7F = 126 \<or> h AND 0x7F = 127"
    by unat_arith
  then show ?thesis
    by (auto simp: readMaskBitAndLength_def flow_state_def Let_def)
qed

lemma flow_state_header:
  assumes "wsState ws = Open" and "2 \<le> bytesAvailable_sock sock"
  shows "flow_state (readOpcodeAnd1ByteLength ws sock) = Error \<longleftrightarrow>
         \<not> valid_opcode (readBuffer sock ! 0 AND 0x0F) \<or>
         (readBuffer sock ! 0 AND 0x0F \<noteq> 8 \<and> readBuffer sock ! 1 AND 0x80 = 0)"
proof -
  from assms(2) have l: "2 \<le> length (readBuffer sock)" by (simp add: bytesAvailable_sock_def)
  then have t: "take 2 (readBuffer sock) ! 0 = readBuffer sock ! 0"
     "take 2 (readBuffer sock) ! 1 = readBuffer sock ! 1" by simp_all
  show ?thesis using assms
    by (simp add: readOpcodeAnd1ByteLength_def Let_def case_prod_beta read_sock_def t
        flow_state_readMaskBitAndLength valid_opcode_def)
       (auto simp: flow_state_def)
qed

lemma flow_state_other:
  assumes "wsState ws = Open" and "nextAction ws \<noteq> ReadOpcodeAnd1ByteLength"
  shows "flow_state (openStep (ws, sock)) = Open"
proof (cases "nextAction ws")
  case ReadPayload
  with assms show ?thesis
    by (cases "nextPayload ws")
      (simp_all add: openStep_def readPayload_def flow_state_def Let_def case_prod_beta unmask_alt)
qed (use assms in \<open>simp_all add: openStep_def flow_state_def Let_def case_prod_beta\<close>)

lemma unmasked_header_step:
  assumes "nextAction ws = ReadOpcodeAnd1ByteLength" and "2 \<le> bytesAvailable_sock sock"
    and "readBuffer sock ! 0 AND 0x0F \<noteq> 8" and "readBuffer sock ! 1 AND 0x80 = 0"
  shows "\<exists>ws'. openStep (ws, sock) = Return (ws', sock\<lparr>readBuffer := drop 2 (readBuffer sock)\<rparr>) \<and>
           wsState ws' = Error \<and> buffers ws' = buffers ws \<and>
           bytesInBuffers ws' = bytesInBuffers ws \<and>
           buffersFirstConsumed ws' = buffersFirstConsumed ws"
proof -
  from assms(2) have l: "2 \<le> length (readBuffer sock)" by (simp add: bytesAvailable_sock_def)
  then have t: "take 2 (readBuffer sock) ! 0 = readBuffer sock ! 0"
     "take 2 (readBuffer sock) ! 1 = readBuffer sock ! 1" by simp_all
  show ?thesis using assms
    by (simp add: openStep_def readOpcodeAnd1ByteLength_def Let_def case_prod_beta read_sock_def t
        readMaskBitAndLength_def)
qed

text \<open>
  Claim C2, as the code has it. While the connection is \<open>Open\<close>, a pass of the decoder
  ends in \<open>Error\<close> precisely when it reads a frame header (two bytes are queued at
  the header step) whose opcode is unknown, or whose opcode is not Close and whose mask
  bit is clear. And for every header with a clear mask bit and an opcode other than
  Close, \<open>socketRead\<close> ends in \<open>Error\<close> with the output buffer as it was (no chunk,
  same total, same offset), nothing written, and only the two header bytes consumed.
  The Close opcode is answered before the mask bit is looked at.
\<close>

theorem error_on_bad_header:
  assumes "wsState ws = Open"
  shows "(flow_state (openStep (ws, sock)) = Error \<longleftrightarrow>
            nextAction ws = ReadOpcodeAnd1ByteLength \<and> 2 \<le> bytesAvailable_sock sock \<and>
            (\<not> valid_opcode (readBuffer sock ! 0 AND 0x0F) \<or>
             (readBuffer sock ! 0 AND 0x0F \<noteq> 8 \<and> readBuffer sock ! 1 AND 0x80 = 0))) \<and>
         (nextAction ws = ReadOpcodeAnd1ByteLength \<and> 2 \<le> bytesAvailable_sock sock \<and>
          readBuffer sock ! 0 AND 0x0F \<noteq> 8 \<and> readBuffer sock ! 1 AND 0x80 = 0 \<longrightarrow>
            wsState (fst (socketRead qt (ws, sock))) = Error \<and>
            buffers (fst (socketRead qt (ws, sock))) = buffers ws \<and>
            bytesInBuffers (fst (socketRead qt (ws, sock))) = bytesInBuffers ws \<and>
            buffersFirstConsumed (fst (socketRead qt (ws, sock))) = buffersFirstConsumed ws \<and>
            snd (socketRead qt (ws, sock)) = sock\<lparr>readBuffer := drop 2 (readBuffer sock)\<rparr>)"
proof (intro conjI impI)
  show "flow_state (openStep (ws, sock)) = Error \<longleftrightarrow>
            nextAction ws = ReadOpcodeAnd1ByteLength \<and> 2 \<le> bytesAvailable_sock sock \<and>
            (\<not> valid_opcode (readBuffer sock ! 0 AND 0x0F) \<or>
             (readBuffer sock ! 0 AND 0x0F \<noteq> 8 \<and> readBuffer sock ! 1 AND 0x80 = 0))"
  proof (cases "nextAction ws = ReadOpcodeAnd1ByteLength")
    case False
    with flow_state_other [OF assms False, of sock] show ?thesis by simp
  next
    case True
    show ?thesis
    proof (cases "2 \<le> bytesAvailable_sock sock")
      case True
      with flow_state_header [OF assms True] \<open>nextAction ws = ReadOpcodeAnd1ByteLength\<close>
      show ?thesis by (simp add: openStep_def)
    next
      case False
      with \<open>nextAction ws = ReadOpcodeAnd1ByteLength\<close> assms show ?thesis
        by (simp add: openStep_def readOpcodeAnd1ByteLength_def flow_state_def)
    qed
  qed
next
  assume a: "nextAction ws = ReadOpcodeAnd1ByteLength \<and> 2 \<le> bytesAvailable_sock sock \<and>
          readBuffer sock ! 0 AND 0x0F \<noteq> 8 \<and> readBuffer sock ! 1 AND 0x80 = 0"
  then obtain ws' where s: "openStep (ws, sock) = Return (ws', sock\<lparr>readBuffer := drop 2 (readBuffer sock)\<rparr>)"
    and p: "wsState ws' = Error" "buffers ws' = buffers ws" "bytesInBuffers ws' = bytesInBuffers ws"
           "buffersFirstConsumed ws' = buffersFirstConsumed ws"
    using unmasked_header_step [of ws sock] by blast
  have r: "socketRead qt (ws, sock) = (ws', sock\<lparr>readBuffer := drop 2 (readBuffer sock)\<rparr>)"
    using assms s by (simp add: socketRead_Open socketReadOpen.simps [of "(ws, sock)"])
  show "wsState (fst (socketRead qt (ws, sock))) = Error"
       "buffers (fst (socketRead qt (ws, sock))) = buffers ws"
       "bytesInBuffers (fst (socketRead qt (ws, sock))) = bytesInBuffers ws"
       "buffersFirstConsumed (fst (socketRead qt (ws, sock))) = buffersFirstConsumed ws"
       "snd (socketRead qt (ws, sock)) = sock\<lparr>readBuffer := drop 2 (readBuffer sock)\<rparr>"
    using p by (simp_all add: r)
qed

text \<open>The theorem at a text frame that carries "Hello" unmasked.\<close>

theorem error_on_bad_header_witness:
  "wsState ws_open = Open \<and>
   nextAction ws_open = ReadOpcodeAnd1ByteLength \<and>
   2 \<le> bytesAvailable_sock (receive unmasked_text_frame sock_empty) \<and>
   readBuffer (receive unmasked_text_frame sock_empty) ! 0 AND 0x0F \<noteq> 8 \<and>
   readBuffer (receive unmasked_text_frame sock_empty) ! 1 AND 0x80 = 0 \<and>
   flow_state (openStep (ws_open, receive unmasked_text_frame sock_empty)) = Error \<and>
   wsState (fst (feed ascii_ops unmasked_text_frame (ws_open, sock_empty))) = Error \<and>
   buffers (fst (feed ascii_ops unmasked_text_frame (ws_open, sock_empty))) = [] \<and>
   bytesInBuffers (fst (feed ascii_ops unmasked_text_frame (ws_open, sock_empty))) = 0 \<and>
   snd (feed ascii_ops unmasked_text_frame (ws_open, sock_empty)) =
     \<lparr>readBuffer = bytes_of ''Hello'', written = []\<rparr>"
proof -
  let ?sock = "receive unmasked_text_frame sock_empty"
  have h: "wsState ws_open = Open" "nextAction ws_open = ReadOpcodeAnd1ByteLength"
      "buffers ws_open = []" "bytesInBuffers ws_open = 0"
    by (simp_all add: ws_open_def ws_init_def)
  have rb: "readBuffer ?sock = [0x81, 0x05] @ bytes_of ''Hello''"
    by (simp add: receive_def sock_empty_def unmasked_text_frame_def)
  have a: "2 \<le> bytesAvailable_sock ?sock" "readBuffer ?sock ! 0 AND 0x0F \<noteq> 8"
      "readBuffer ?sock ! 1 AND 0x80 = 0"
    by (simp_all add: rb bytesAvailable_sock_def)
  have v: "valid_opcode (readBuffer ?sock ! 0 AND 0x0F)"
    by (simp add: rb valid_opcode_def)
  have d: "?sock\<lparr>readBuffer := drop 2 (readBuffer ?sock)\<rparr> =
           \<lparr>readBuffer = bytes_of ''Hello'', written = []\<rparr>"
    by (simp add: rb) (simp add: receive_def sock_empty_def)
  from error_on_bad_header [OF h(1), of ?sock ascii_ops] h a v d show ?thesis
    by (simp add: feed_def)
qed

text \<open>
  The claim as stated fails at a close frame with a clear mask bit: the connection ends
  \<open>Closed\<close>, not in \<open>Error\<close>.
\<close>

theorem unmasked_close_counterexample:
  "unmasked_close_frame ! 1 AND 0x80 = 0 \<and>
   wsState (fst (feed ascii_ops unmasked_close_frame (ws_open, sock_empty))) = Closed \<and>
   wsState (fst (feed ascii_ops unmasked_close_frame (ws_open, sock_empty))) \<noteq> Error"
  by (simp add: decoder_eval unmasked_close_frame_def ws_open_def ws_init_def sock_empty_def)

section \<open>Close frames\<close>

lemma socketRead_terminal':
  "wsState (fst st) = Closed \<or> wsState (fst st) = Error \<Longrightarrow> socketRead qt st = st"
  using socketRead_terminal [of "fst st" qt "snd st"] by simp

lemma feed_all_terminal:
  assumes "wsState ws = Closed \<or> wsState ws = Error"
  shows "feed_all qt chunks (ws, sock) = (ws, receive (concat chunks) sock)"
proof (induction chunks rule: rev_induct)
  case Nil
  show ?case by (simp add: feed_all_def receive_Nil)
next
  case (snoc c cs)
  with assms show ?case
    by (simp add: feed_all_snoc feed_def socketRead_terminal receive_receive)
qed

text \<open>
  Claim C3. When the decoder, in the state \<open>Open\<close>, reads a frame header with opcode 8,
  \<open>socketRead\<close> writes the two bytes \<open>88 00\<close> (FIN set, opcode 8, length 0) and
  nothing else, sets the state to \<open>Closed\<close>, and leaves every byte behind the header
  queued. Whatever arrives later, in however many calls of \<open>socketRead\<close>, is queued
  on the transport and never read, and nothing more is written.
\<close>

theorem close_frame:
  assumes "wsState ws = Open" and "nextAction ws = ReadOpcodeAnd1ByteLength"
    and "2 \<le> bytesAvailable_sock sock" and "readBuffer sock ! 0 AND 0x0F = 8"
  shows "socketRead qt (ws, sock) =
           (ws\<lparr>wsState := Closed\<rparr>,
            sock\<lparr>readBuffer := drop 2 (readBuffer sock), written := written sock @ [0x88, 0x00]\<rparr>) \<and>
         feed_all qt chunks (socketRead qt (ws, sock)) =
           (fst (socketRead qt (ws, sock)), receive (concat chunks) (snd (socketRead qt (ws, sock))))"
proof -
  from assms(3) have l: "2 \<le> length (readBuffer sock)" by (simp add: bytesAvailable_sock_def)
  then have t: "take 2 (readBuffer sock) ! 0 = readBuffer sock ! 0" by simp
  have s: "openStep (ws, sock) =
           Return (ws\<lparr>wsState := Closed\<rparr>,
            sock\<lparr>readBuffer := drop 2 (readBuffer sock), written := written sock @ [0x88, 0x00]\<rparr>)"
    using assms
    by (simp add: openStep_def readOpcodeAnd1ByteLength_def Let_def case_prod_beta read_sock_def t
          write_sock_def)
  have r: "socketRead qt (ws, sock) =
           (ws\<lparr>wsState := Closed\<rparr>,
            sock\<lparr>readBuffer := drop 2 (readBuffer sock), written := written sock @ [0x88, 0x00]\<rparr>)"
    using assms(1) s by (simp add: socketRead_Open socketReadOpen.simps [of "(ws, sock)"])
  show ?thesis
    by (simp add: r feed_all_terminal)
qed

text \<open>
  The theorem at a masked close frame followed by a data frame, with another data frame
  arriving in pieces afterwards.
\<close>

theorem close_frame_witness:
  "wsState ws_open = Open \<and> nextAction ws_open = ReadOpcodeAnd1ByteLength \<and>
   2 \<le> bytesAvailable_sock (receive close_then_more sock_empty) \<and>
   readBuffer (receive close_then_more sock_empty) ! 0 AND 0x0F = 8 \<and>
   feed ascii_ops close_then_more (ws_open, sock_empty) =
     (ws_open\<lparr>wsState := Closed\<rparr>,
      \<lparr>readBuffer = [1, 2, 3, 4] @ hello_frame, written = [0x88, 0x00]\<rparr>) \<and>
   feed_all ascii_ops hello_chunks (feed ascii_ops close_then_more (ws_open, sock_empty)) =
     (ws_open\<lparr>wsState := Closed\<rparr>,
      \<lparr>readBuffer = [1, 2, 3, 4] @ hello_frame @ hello_frame, written = [0x88, 0x00]\<rparr>)"
proof -
  let ?sock = "receive close_then_more sock_empty"
  have h: "wsState ws_open = Open" "nextAction ws_open = ReadOpcodeAnd1ByteLength"
    by (simp_all add: ws_open_def ws_init_def)
  have rb: "readBuffer ?sock = [0x88, 0x80, 1, 2, 3, 4] @ hello_frame" "written ?sock = []"
    by (simp_all add: receive_def sock_empty_def close_then_more_def)
  have a: "2 \<le> bytesAvailable_sock ?sock" "readBuffer ?sock ! 0 AND 0x0F = 8"
    by (simp_all add: rb bytesAvailable_sock_def)
  have d: "?sock\<lparr>readBuffer := drop 2 (readBuffer ?sock), written := written ?sock @ [0x88, 0x00]\<rparr> =
           \<lparr>readBuffer = [1, 2, 3, 4] @ hello_frame, written = [0x88, 0x00]\<rparr>"
    by (simp add: rb)
  have c: "concat hello_chunks = hello_frame"
    by (simp add: hello_chunks_def hello_frame_def hello_key_def hello_masked_def)
  note cf = close_frame [OF h a, of ascii_ops hello_chunks]
  from cf [THEN conjunct1] have r1: "socketRead ascii_ops (ws_open, ?sock) =
      (ws_open\<lparr>wsState := Closed\<rparr>,
       \<lparr>readBuffer = [1, 2, 3, 4] @ hello_frame, written = [0x88, 0x00]\<rparr>)"
    by (simp only: d)
  from cf [THEN conjunct2] have r2: "feed_all ascii_ops hello_chunks (socketRead ascii_ops (ws_open, ?sock)) =
      (ws_open\<lparr>wsState := Closed\<rparr>,
       \<lparr>readBuffer = [1, 2, 3, 4] @ hello_frame @ hello_frame, written = [0x88, 0x00]\<rparr>)"
    unfolding r1 c by (simp add: receive_def)
  from h a r1 r2 show ?thesis
    by (simp add: feed_def)
qed

section \<open>Ping and pong\<close>

text \<open>A received ping whose payload is all there is answered in the same step.\<close>

lemma ping_step:
  assumes "nextAction ws = ReadPayload" and "nextPayload ws = Ping"
    and "unat (nextLength ws) \<le> bytesAvailable_sock sock"
  shows "openStep (ws, sock) =
         Continue
           (ws\<lparr>maskIndex := index_after (take (unat (nextLength ws)) (readBuffer sock)) (maskIndex ws),
                nextAction := ReadOpcodeAnd1ByteLength\<rparr>,
            write_sock
              (unmask_bytes (take (unat (nextLength ws)) (readBuffer sock)) (mask_key ws) (maskIndex ws))
              (writeLength (nextLength ws)
                 (write_sock [0x8A] (sock\<lparr>readBuffer := drop (unat (nextLength ws)) (readBuffer sock)\<rparr>))))"
  using assms
  by (simp add: openStep_def readPayload_def Let_def case_prod_beta unmask_alt read_sock_def
        bytesAvailable_sock_def pongHeader_def length_unmask_bytes min_absorb2)

lemma ping_waits:
  assumes "nextAction ws = ReadPayload" and "nextPayload ws = Ping"
    and "bytesAvailable_sock sock < unat (nextLength ws)"
  shows "openStep (ws, sock) = Return (ws, sock)"
  using assms by (simp add: openStep_short step_needs_def)

text \<open>Except for a payload of 65536 bytes, the answer is a well-formed pong frame.\<close>

lemma ping_pong:
  assumes "nextAction ws = ReadPayload" and "nextPayload ws = Ping"
    and "unat (nextLength ws) \<le> bytesAvailable_sock sock" and "nextLength ws \<noteq> 65536"
    and "openStep (ws, sock) = Continue (ws', sock')"
    and "P = unmask_bytes (take (unat (nextLength ws)) (readBuffer sock)) (mask_key ws) (maskIndex ws)"
  shows "written sock' = written sock @ [0x8A] @ minimal_length_header (of_nat (length P)) @ P"
proof -
  have "length P = unat (nextLength ws)"
    using assms(3,6) by (simp add: length_unmask_bytes bytesAvailable_sock_def)
  then have l: "(of_nat (length P) :: 64 word) = nextLength ws"
    by simp
  from assms(5) ping_step [OF assms(1-3)]
  have "written sock' = written sock @ [0x8A] @ minimal_length_header (nextLength ws) @ P"
    by (auto simp: assms(4,6) writeLength_minimal write_sock_def)
  then show ?thesis
    by (simp only: l)
qed

lemma unmask_bytes_zero_key:
  "i < 4 \<Longrightarrow> unmask_bytes d [0, 0, 0, 0] i = d"
proof (induction d arbitrary: i)
  case Nil
  show ?case by simp
next
  case (Cons x d)
  from Cons.prems have c: "i = 0 \<or> i = 1 \<or> i = 2 \<or> i = 3" by (rule maskIndex_cases)
  then have "(if i + 1 = 4 then 0 else i + 1) < 4" by auto
  from Cons.IH [OF this] c show ?case by auto
qed

text \<open>
  Claim C6. A received ping with payload \<open>P\<close> is answered by one pong frame: the byte
  \<open>8A\<close>, the minimal length header of the length of \<open>P\<close>, and \<open>P\<close> unmasked,
  written once the whole payload is queued (\<open>ping_waits\<close>, \<open>ping_pong\<close>). For a
  payload of 65536 bytes the length header is the one of claim C4: the engine writes
  \<open>8A 7E 00 00\<close> in front of the payload, which announces a pong of length zero, where
  the minimal header is \<open>7F\<close> and eight bytes.
\<close>

theorem pong_for_65536_bytes:
  "written (snd (feed ascii_ops ping_65536 (ws_open, sock_empty))) =
     [0x8A, 126, 0, 0] @ replicate 65536 0 \<and>
   [0x8A] @ minimal_length_header 65536 @ replicate 65536 0 =
     [0x8A, 127, 0, 0, 0, 0, 0, 1, 0, 0] @ replicate 65536 0"
proof -
  let ?ws1 = "ws_open\<lparr>nextPayload := Ping, nextAction := Read8ByteLength\<rparr>"
  let ?s1 = "\<lparr>readBuffer = [0, 0, 0, 0, 0, 1, 0, 0] @ [0, 0, 0, 0] @ replicate 65536 0, written = []\<rparr>"
  let ?ws2 = "ws_open\<lparr>nextPayload := Ping, nextLength := 65536, nextAction := ReadMask\<rparr>"
  let ?s2 = "\<lparr>readBuffer = [0, 0, 0, 0] @ replicate 65536 0, written = []\<rparr>"
  let ?ws3 = "ws_open\<lparr>nextPayload := Ping, nextLength := 65536, nextAction := ReadPayload\<rparr>"
  let ?s3 = "\<lparr>readBuffer = replicate 65536 (0 :: byte), written = []\<rparr>"
  have e1: "openStep (ws_open, receive ping_65536 sock_empty) = Continue (?ws1, ?s1)"
    by (simp add: openStep_def readOpcodeAnd1ByteLength_def readMaskBitAndLength_def Let_def
          bytesAvailable_sock_def read_sock_def receive_def sock_empty_def ping_65536_def
          ws_open_def ws_init_def)
  have e2: "openStep (?ws1, ?s1) = Continue (?ws2, ?s2)"
    by (simp add: openStep_def Let_def bytesAvailable_sock_def read_sock_def qFromBigEndian_def
          ws_open_def ws_init_def)
  have e3: "openStep (?ws2, ?s2) = Continue (?ws3, ?s3)"
    by (simp add: openStep_def Let_def bytesAvailable_sock_def read_sock_def
          ws_open_def ws_init_def)
  have p: "nextAction ?ws3 = ReadPayload" "nextPayload ?ws3 = Ping"
      "unat (nextLength ?ws3) \<le> bytesAvailable_sock ?s3" "unat (nextLength ?ws3) = 65536"
      "mask_key ?ws3 = [0, 0, 0, 0]" "maskIndex ?ws3 = 0"
    by (simp_all add: bytesAvailable_sock_def ws_open_def ws_init_def)
  let ?ws4 = "?ws3\<lparr>maskIndex := index_after (replicate 65536 0) 0,
                nextAction := ReadOpcodeAnd1ByteLength\<rparr>"
  let ?s4 = "\<lparr>readBuffer = [], written = [0x8A, 126, 0, 0] @ replicate 65536 (0 :: byte)\<rparr>"
  have e4: "openStep (?ws3, ?s3) = Continue (?ws4, ?s4)"
    using ping_step [OF p(1-3)]
    by (simp add: p(4-6) unmask_bytes_zero_key writeLength_def write_sock_def Let_def
          qToBigEndian16 ws_open_def ws_init_def)
  have e5: "openStep (?ws4, ?s4) = Return (?ws4, ?s4)"
    by (rule openStep_short) (simp add: step_needs_def bytesAvailable_sock_def)
  have "socketReadOpen (ws_open, receive ping_65536 sock_empty) = (?ws4, ?s4)"
    by (simp only: socketReadOpen.simps [of "(ws_open, receive ping_65536 sock_empty)"] e1
          socketReadOpen.simps [of "(?ws1, ?s1)"] e2 socketReadOpen.simps [of "(?ws2, ?s2)"] e3
          socketReadOpen.simps [of "(?ws3, ?s3)"] e4 socketReadOpen.simps [of "(?ws4, ?s4)"] e5
          flow.case)
  then have "written (snd (feed ascii_ops ping_65536 (ws_open, sock_empty))) =
     [0x8A, 126, 0, 0] @ replicate 65536 0"
    by (simp add: feed_def socketRead_def ws_open_def ws_init_def)
  then show ?thesis
    by (simp add: minimal_length_header_def qToBigEndian64)
qed

section \<open>Reading the output buffer\<close>

lemma unat_of_nat64: "n < 2 ^ 64 \<Longrightarrow> unat (of_nat n :: 64 word) = n"
  by (simp add: unat_of_nat take_bit_nat_eq_self flip: take_bit_eq_mod)

text \<open>
  The loop of the first \<open>read\<close>, from a buffer that satisfies the invariant: it copies
  the first \<open>maxLen\<close> readable bytes, or all of them if there are fewer, counts them
  in \<open>len\<close>, takes them off the total and keeps the invariant. The proof follows the
  loop: a head chunk with nothing left is dropped, which changes no readable byte; a
  read step copies the front of what is readable and leaves the rest to the next pass.
\<close>

lemma read_loop_spec:
  assumes "buffer_ok ws"
  shows "\<exists>ws'. read_loop ws maxLen len buf =
           (len + of_nat (min (unat maxLen) (length (outputBytes ws))),
            buf @ take (unat maxLen) (outputBytes ws), ws') \<and>
         buffer_ok ws' \<and>
         outputBytes ws' = drop (unat maxLen) (outputBytes ws) \<and>
         bytesInBuffers ws' =
           bytesInBuffers ws - of_nat (min (unat maxLen) (length (outputBytes ws)))"
  using assms
proof (induction ws maxLen len buf rule: read_loop.induct)
  case (1 ws maxLen len buf)
  show ?case
  proof (cases "buffers ws")
    case Nil
    with "1.prems" show ?thesis
      by (simp add: read_loop.simps [of ws] outputBytes_def)
  next
    case (Cons b bs)
    let ?c = "buffersFirstConsumed ws"
    let ?rem = "(of_nat (length b) :: 64 word) - ?c"
    from "1.prems" Cons have lt: "length b + length (concat bs) < 2 ^ 64"
      and cb: "unat ?c \<le> length b"
      and tot: "unat (bytesInBuffers ws) = length b - unat ?c + length (concat bs)"
      by (simp_all add: buffer_ok_def outputBytes_def)
    from lt have lb: "unat (of_nat (length b) :: 64 word) = length b"
      by (simp add: unat_of_nat64)
    from cb lb have cle: "?c \<le> of_nat (length b)"
      by (simp add: word_le_nat_alt)
    then have urem: "unat ?rem = length b - unat ?c"
      by (simp add: unat_sub lb)
    have content: "outputBytes ws = drop (unat ?c) b @ concat bs"
      using cb by (simp add: outputBytes_def Cons)
    have ne: "buffers ws \<noteq> []" and hdb: "hd (buffers ws) = b"
      using Cons by simp_all
    show ?thesis
    proof (cases "?rem = 0")
      case True
      with urem cb have full: "unat ?c = length b" by (simp add: unat_eq_0)
      let ?ws = "ws\<lparr>buffers := tl (buffers ws), buffersFirstConsumed := 0\<rparr>"
      have ok: "buffer_ok ?ws"
        using lt tot full by (simp add: buffer_ok_def Cons outputBytes_def split: list.splits)
      have same: "outputBytes ?ws = outputBytes ws"
        using full by (simp add: content) (simp add: outputBytes_def Cons)
      have b: "bytesInBuffers ?ws = bytesInBuffers ws" by simp
      have "read_loop ws maxLen len buf = read_loop ?ws maxLen len buf"
        using True Cons by (simp add: read_loop.simps [of ws])
      moreover have "\<exists>ws'. read_loop ?ws maxLen len buf =
           (len + of_nat (min (unat maxLen) (length (outputBytes ?ws))),
            buf @ take (unat maxLen) (outputBytes ?ws), ws') \<and>
         buffer_ok ws' \<and>
         outputBytes ws' = drop (unat maxLen) (outputBytes ?ws) \<and>
         bytesInBuffers ws' =
           bytesInBuffers ?ws - of_nat (min (unat maxLen) (length (outputBytes ?ws)))"
        using "1.IH"(1) [OF ne refl] True ok by (simp add: hdb)
      ultimately show ?thesis
        by (simp only: same b)
    next
      case False
      note rem_nz = False
      show ?thesis
      proof (cases "maxLen = 0")
        case True
        with rem_nz Cons "1.prems" show ?thesis
          by (simp add: read_loop.simps [of ws])
      next
        case False
        define step where "step = (if ?rem < maxLen then ?rem else maxLen)"
        define r where "r = unat step"
        have r: "r = min (length b - unat ?c) (unat maxLen)"
          using urem by (auto simp: r_def step_def word_less_nat_alt)
        have rle: "step \<le> maxLen" by (auto simp: step_def)
        have st: "step = of_nat r" by (simp add: r_def)
        let ?ws1 = "ws\<lparr>buffersFirstConsumed := ?c + step\<rparr>"
        let ?ws = "?ws1\<lparr>bytesInBuffers := bytesInBuffers ?ws1 - step\<rparr>"
        have cr: "unat ?c + r \<le> length b" using r cb by simp
        have rl: "r \<le> length (outputBytes ws)" and rm: "r \<le> unat maxLen"
          using r by (simp_all add: content)
        have uc: "unat (?c + step) = unat ?c + r"
        proof -
          from cr lt have "unat ?c + unat step < 2 ^ 64" by (simp add: r_def)
          then show ?thesis by (simp add: unat_add_lem [THEN iffD1] r_def)
        qed
        have ub: "unat (bytesInBuffers ws - step) = unat (bytesInBuffers ws) - r"
        proof -
          have "unat step \<le> unat (bytesInBuffers ws)" using tot cr by (simp add: r_def)
          then have "step \<le> bytesInBuffers ws" by (simp add: word_le_nat_alt)
          then show ?thesis by (simp add: unat_sub r_def)
        qed
        have um: "unat (maxLen - step) = unat maxLen - r"
          using rle by (simp add: unat_sub r_def)
        have content': "outputBytes ?ws = drop r (outputBytes ws)"
        proof -
          have "drop (unat ?c + r) b = drop r (drop (unat ?c) b)"
            by (simp add: add.commute)
          with cr show ?thesis
            by (simp add: outputBytes_def Cons uc)
        qed
        have "unat (bytesInBuffers ?ws) = unat (bytesInBuffers ws) - r"
          by (simp add: ub)
        moreover have "length (outputBytes ?ws) = length (outputBytes ws) - r"
          by (simp only: content' length_drop)
        moreover have "length (outputBytes ws) = length b - unat ?c + length (concat bs)"
          by (simp add: content)
        ultimately have "unat (bytesInBuffers ?ws) = length (outputBytes ?ws)"
          using tot by simp
        then have ok: "buffer_ok ?ws"
          using lt cr by (simp add: buffer_ok_def Cons uc)
        have tk: "take r (drop (unat ?c) b) = take r (outputBytes ws)"
          using r by (simp add: content)
        have unfold: "read_loop ws maxLen len buf =
              read_loop ?ws (maxLen - step) (len + step) (buf @ take r (drop (unat ?c) b))"
          using rem_nz False Cons
          by (subst read_loop.simps) (simp add: Let_def step_def r_def)
        have "\<exists>ws'. read_loop ?ws (maxLen - step) (len + step)
                  (buf @ take (unat step) (drop (unat ?c) b)) =
                (len + step + of_nat (min (unat (maxLen - step)) (length (outputBytes ?ws))),
                 (buf @ take (unat step) (drop (unat ?c) b)) @
                   take (unat (maxLen - step)) (outputBytes ?ws), ws') \<and>
              buffer_ok ws' \<and>
              outputBytes ws' = drop (unat (maxLen - step)) (outputBytes ?ws) \<and>
              bytesInBuffers ws' = bytesInBuffers ?ws -
                of_nat (min (unat (maxLen - step)) (length (outputBytes ?ws)))"
          using "1.IH"(2) [OF ne refl _ False refl refl refl refl refl refl refl, unfolded hdb,
                folded step_def, OF rem_nz ok] .
        then obtain ws' where
          res: "read_loop ?ws (maxLen - step) (len + step) (buf @ take r (drop (unat ?c) b)) =
                (len + step + of_nat (min (unat (maxLen - step)) (length (outputBytes ?ws))),
                 (buf @ take r (drop (unat ?c) b)) @
                   take (unat (maxLen - step)) (outputBytes ?ws), ws')"
          and ok': "buffer_ok ws'"
          and out': "outputBytes ws' = drop (unat (maxLen - step)) (outputBytes ?ws)"
          and tot': "bytesInBuffers ws' = bytesInBuffers ?ws -
                of_nat (min (unat (maxLen - step)) (length (outputBytes ?ws)))"
          unfolding r_def by blast
        have k: "min (unat maxLen) (length (outputBytes ws)) =
                 r + min (unat maxLen - r) (length (outputBytes ws) - r)"
          using rl rm by arith
        have bytes: "take r (outputBytes ws) @ take (unat maxLen - r) (drop r (outputBytes ws)) =
                     take (unat maxLen) (outputBytes ws)"
          using rm by (metis le_add_diff_inverse take_add)
        have e1: "len + step + of_nat (min (unat (maxLen - step)) (length (outputBytes ?ws))) =
                  len + of_nat (min (unat maxLen) (length (outputBytes ws)))"
          by (simp only: um content' length_drop k of_nat_add) (simp only: st [symmetric] add.assoc)
        have e2: "(buf @ take r (drop (unat ?c) b)) @
                   take (unat (maxLen - step)) (outputBytes ?ws) =
                  buf @ take (unat maxLen) (outputBytes ws)"
          by (simp only: um content' tk append_assoc bytes)
        have e3: "drop (unat (maxLen - step)) (outputBytes ?ws) = drop (unat maxLen) (outputBytes ws)"
          using rm by (simp only: um content' drop_drop) simp
        have e4: "bytesInBuffers ?ws -
                of_nat (min (unat (maxLen - step)) (length (outputBytes ?ws))) =
                bytesInBuffers ws - of_nat (min (unat maxLen) (length (outputBytes ws)))"
          by (simp only: um content' length_drop k of_nat_add) (simp add: st [symmetric])
        from unfold res ok' out' tot' show ?thesis
          by (simp only: e1 e2 e3 e4) simp
      qed
    qed
  qed
qed

lemma read_buf_spec:
  assumes "buffer_ok ws"
  shows "\<exists>ws'. read_buf maxLen ws =
           (of_nat (min (unat maxLen) (length (outputBytes ws))),
            take (unat maxLen) (outputBytes ws), ws') \<and>
         buffer_ok ws' \<and>
         outputBytes ws' = drop (unat maxLen) (outputBytes ws) \<and>
         bytesInBuffers ws' =
           bytesInBuffers ws - of_nat (min (unat maxLen) (length (outputBytes ws)))"
  using read_loop_spec [OF assms, of maxLen 0 "[]"] by (simp add: read_buf_def)

text \<open>
  The conversion of the target to \<^verbatim>\<open>int\<close>: it keeps a number below \<open>2 ^ 31\<close>, and
  whatever the target, the size it gives is below \<open>2 ^ 31\<close>.
\<close>

lemma sint_ucast_small:
  assumes "unat (t :: 64 word) < 2 ^ 31"
  shows "sint (ucast t :: 32 word) = int (unat t)"
proof -
  from assms have u: "uint t < 2 ^ 31"
  proof -
    from assms have "int (unat t) < int (2 ^ 31)" by (simp only: of_nat_less_iff)
    then show ?thesis by simp
  qed
  have "uint (ucast t :: 32 word) = take_bit 32 (uint t)"
    by (simp add: unsigned_ucast_eq)
  also have "\<dots> = uint t"
    using u by (simp add: take_bit_int_eq_self)
  finally have e: "uint (ucast t :: 32 word) = uint t" .
  have "sint (ucast t :: 32 word) = signed_take_bit 31 (uint (ucast t :: 32 word))"
    by (simp add: sint_uint)
  also have "\<dots> = uint t"
  proof -
    have "- (2 ^ 31) \<le> (0 :: int)" by simp
    also have "0 \<le> uint t" by simp
    finally have "- (2 ^ 31) \<le> uint t" .
    with u show ?thesis
      by (simp only: e signed_take_bit_int_eq_self)
  qed
  finally show ?thesis by simp
qed


lemma sint_ucast_less: "sint (ucast (t :: 64 word) :: 32 word) < 2 ^ 31"
  using sint_lt [of "ucast t :: 32 word"] by simp

lemma narrowed_array:
  assumes "unat (t :: 64 word) < 2 ^ 31"
  shows "(if sint (ucast t :: 32 word) \<le> 0 then []
          else replicate (nat (sint (ucast t :: 32 word))) x) = replicate (unat t) x"
proof (cases "unat t = 0")
  case True
  with assms show ?thesis by (simp only: sint_ucast_small) simp
next
  case False
  then have "0 < unat t" by simp
  then have "0 < int (unat t)" by (simp only: of_nat_0_less_iff)
  then have "\<not> int (unat t) \<le> 0" by (simp only: not_le)
  with assms show ?thesis by (simp only: sint_ucast_small if_False nat_int)
qed

text \<open>
  The second \<open>read\<close>, from a buffer that satisfies the invariant. The engine is left
  as by the first overload, whatever the sizes. The array returned holds the first
  \<open>maxLen\<close> readable bytes, or all of them, exactly when that number of bytes is below
  \<open>2 ^ 31\<close>; from \<open>2 ^ 31\<close> bytes on, the array is too short for what is copied into it.
\<close>

lemma read_qba_state:
  assumes "buffer_ok ws"
  shows "buffer_ok (snd (read_qba maxLen ws)) \<and>
         outputBytes (snd (read_qba maxLen ws)) = drop (unat maxLen) (outputBytes ws) \<and>
         bytesInBuffers (snd (read_qba maxLen ws)) =
           bytesInBuffers ws - of_nat (min (unat maxLen) (length (outputBytes ws))) \<and>
         (if min (unat maxLen) (length (outputBytes ws)) < 2 ^ 31
          then fst (read_qba maxLen ws) = Inr (take (unat maxLen) (outputBytes ws))
          else fst (read_qba maxLen ws) = Inl BufferOverrun)"
proof -
  define target where "target = (if maxLen < bytesInBuffers ws then maxLen else bytesInBuffers ws)"
  from assms have tot: "unat (bytesInBuffers ws) = length (outputBytes ws)"
    by (simp add: buffer_ok_def)
  have ut: "unat target = min (unat maxLen) (length (outputBytes ws))"
    using tot by (auto simp: target_def word_less_nat_alt)
  from read_buf_spec [OF assms, of target] obtain ws' where
    rb: "read_buf target ws =
           (of_nat (min (unat target) (length (outputBytes ws))),
            take (unat target) (outputBytes ws), ws')"
    and ok: "buffer_ok ws'"
    and out: "outputBytes ws' = drop (unat target) (outputBytes ws)"
    and b: "bytesInBuffers ws' =
           bytesInBuffers ws - of_nat (min (unat target) (length (outputBytes ws)))"
    by blast
  have t: "take (unat target) (outputBytes ws) = take (unat maxLen) (outputBytes ws)"
    by (simp add: ut min_def)
  have d: "drop (unat target) (outputBytes ws) = drop (unat maxLen) (outputBytes ws)"
    by (simp add: ut min_def)
  have m: "min (unat target) (length (outputBytes ws)) = min (unat maxLen) (length (outputBytes ws))"
    by (simp add: ut)
  have l: "length (take (unat maxLen) (outputBytes ws)) = unat target"
    by (simp add: ut min.commute)
  have q: "read_qba maxLen ws =
        (if unat target \<le> length (if sint (ucast target :: 32 word) \<le> 0 then []
                                    else replicate (nat (sint (ucast target :: 32 word))) (0 :: byte))
         then Inr (take (unat maxLen) (outputBytes ws) @
                   drop (unat target) (if sint (ucast target :: 32 word) \<le> 0 then []
                                       else replicate (nat (sint (ucast target :: 32 word))) 0))
         else Inl BufferOverrun, ws')"
    unfolding read_qba_def Let_def target_def [symmetric] rb t l prod.case ..
  have s: "snd (read_qba maxLen ws) = ws'" by (simp only: q snd_conv)
  have r: "if unat target < 2 ^ 31
           then fst (read_qba maxLen ws) = Inr (take (unat maxLen) (outputBytes ws))
           else fst (read_qba maxLen ws) = Inl BufferOverrun"
  proof (cases "unat target < 2 ^ 31")
    case True
    then show ?thesis by (simp add: q narrowed_array)
  next
    case False
    have "sint (ucast target :: 32 word) < 2 ^ 31" by (rule sint_ucast_less)
    then have "nat (sint (ucast target :: 32 word)) < 2 ^ 31" by (simp add: nat_less_iff)
    with False show ?thesis by (simp add: q)
  qed
  have out2: "outputBytes ws' = drop (unat maxLen) (outputBytes ws)"
    using out by (simp only: d)
  have b2: "bytesInBuffers ws' =
        bytesInBuffers ws - of_nat (min (unat maxLen) (length (outputBytes ws)))"
    using b by (simp only: m)
  have r2: "if min (unat maxLen) (length (outputBytes ws)) < 2 ^ 31
            then fst (read_qba maxLen ws) = Inr (take (unat maxLen) (outputBytes ws))
            else fst (read_qba maxLen ws) = Inl BufferOverrun"
    using r by (simp only: ut)
  from ok out2 b2 r2 show ?thesis
    unfolding s by blast
qed

lemma read_many_spec:
  assumes "buffer_ok ws"
    and "length (outputBytes ws) < 2 ^ 31 \<or> (\<forall>m \<in> set ms. unat m < 2 ^ 31)"
  shows "\<exists>rs. fst (read_many ms ws) = Inr rs \<and>
           concat rs = take (sum_list (map unat ms)) (outputBytes ws) \<and>
           outputBytes (snd (read_many ms ws)) = drop (sum_list (map unat ms)) (outputBytes ws) \<and>
           buffer_ok (snd (read_many ms ws))"
  using assms
proof (induction ms arbitrary: ws)
  case Nil
  then show ?case by simp
next
  case (Cons m ms)
  note q = read_qba_state [OF Cons.prems(1), of m]
  from Cons.prems(2) have "min (unat m) (length (outputBytes ws)) < 2 ^ 31"
    by auto
  with q have f: "fst (read_qba m ws) = Inr (take (unat m) (outputBytes ws))"
    by simp
  from q have ok: "buffer_ok (snd (read_qba m ws))"
    and out: "outputBytes (snd (read_qba m ws)) = drop (unat m) (outputBytes ws)"
    by simp_all
  from Cons.prems(2)
  have "length (outputBytes (snd (read_qba m ws))) < 2 ^ 31 \<or> (\<forall>m \<in> set ms. unat m < 2 ^ 31)"
    by (auto simp: out)
  from Cons.IH [OF ok this] obtain rs where
    r: "fst (read_many ms (snd (read_qba m ws))) = Inr rs"
    and c: "concat rs = take (sum_list (map unat ms)) (outputBytes (snd (read_qba m ws)))"
    and o: "outputBytes (snd (read_many ms (snd (read_qba m ws)))) =
            drop (sum_list (map unat ms)) (outputBytes (snd (read_qba m ws)))"
    and k: "buffer_ok (snd (read_many ms (snd (read_qba m ws))))"
    by blast
  have e: "read_many (m # ms) ws =
           (Inr (take (unat m) (outputBytes ws) # rs), snd (read_many ms (snd (read_qba m ws))))"
    using f r by (simp add: split_beta prod_eq_iff split: prod.splits sum.splits)
  have e1: "fst (read_many (m # ms) ws) = Inr (take (unat m) (outputBytes ws) # rs)"
    and e2: "snd (read_many (m # ms) ws) = snd (read_many ms (snd (read_qba m ws)))"
    by (simp_all only: e fst_conv snd_conv)
  from c o k show ?case
    by (simp only: e1 e2) (simp add: out take_add add.commute)
qed

text \<open>
  The reads where the arrays fit: with fewer than \<open>2 ^ 31\<close> bytes in an
  output buffer that satisfies its invariant, a read with maximum length \<open>maxLen\<close>
  returns the first \<open>maxLen\<close> readable bytes, or all of them when fewer are buffered,
  and never fails; the total goes down by the number of bytes returned, and the bytes
  not returned stay readable, in order. Both overloads return the same bytes, the
  first with their count. And for every sequence of maximum lengths, the arrays of the
  successive reads, one after the other, are what a single read of their total length
  returns. The maximum length is used as an unsigned 64-bit value, as the code casts
  it; that is the number itself for every non-negative \<^verbatim>\<open>qint64\<close>. The first overload
  does the same for every size (\<open>read_buf_spec\<close>), as long as the caller's buffer holds
  \<open>maxLen\<close> bytes.
\<close>

lemma partial_reads_below_int_max:
  assumes "buffer_ok ws" and "unat (bytesInBuffers ws) < 2 ^ 31"
  shows "fst (read_qba maxLen ws) = Inr (take (unat maxLen) (outputBytes ws)) \<and>
         length (take (unat maxLen) (outputBytes ws)) = min (unat maxLen) (unat (bytesInBuffers ws)) \<and>
         bytesInBuffers (snd (read_qba maxLen ws)) =
           bytesInBuffers ws - of_nat (length (take (unat maxLen) (outputBytes ws))) \<and>
         outputBytes (snd (read_qba maxLen ws)) = drop (unat maxLen) (outputBytes ws) \<and>
         buffer_ok (snd (read_qba maxLen ws)) \<and>
         fst (read_buf maxLen ws) = of_nat (length (take (unat maxLen) (outputBytes ws))) \<and>
         fst (snd (read_buf maxLen ws)) = take (unat maxLen) (outputBytes ws) \<and>
         bytesInBuffers (snd (snd (read_buf maxLen ws))) =
           bytesInBuffers ws - fst (read_buf maxLen ws) \<and>
         (\<exists>rs. fst (read_many ms ws) = Inr rs \<and>
               fst (read_qba (of_nat (length (concat rs))) ws) = Inr (concat rs))"
proof -
  from assms(1) have tot: "unat (bytesInBuffers ws) = length (outputBytes ws)"
    by (simp add: buffer_ok_def)
  with assms(2) have small: "length (outputBytes ws) < 2 ^ 31" by simp
  then have lt: "length (outputBytes ws) < 2 ^ 64"
    by (rule less_trans) simp
  have sm: "min (unat n) (length (outputBytes ws)) < 2 ^ 31" for n :: "64 word"
    using small by simp
  have q: "fst (read_qba n ws) = Inr (take (unat n) (outputBytes ws))" for n
    using read_qba_state [OF assms(1), of n] sm [of n] by simp
  note st = read_qba_state [OF assms(1), of maxLen]
  from read_buf_spec [OF assms(1), of maxLen] obtain ws' where
    rb: "read_buf maxLen ws =
           (of_nat (min (unat maxLen) (length (outputBytes ws))),
            take (unat maxLen) (outputBytes ws), ws')"
    and b: "bytesInBuffers ws' =
           bytesInBuffers ws - of_nat (min (unat maxLen) (length (outputBytes ws)))"
    by blast
  from read_many_spec [OF assms(1), of ms] small obtain rs where
    r: "fst (read_many ms ws) = Inr rs"
    and o: "concat rs = take (sum_list (map unat ms)) (outputBytes ws)"
    by blast
  from o have "length (concat rs) \<le> length (outputBytes ws)" by simp
  with lt have "unat (of_nat (length (concat rs)) :: 64 word) = length (concat rs)"
    by (simp add: unat_of_nat64)
  with q [of "of_nat (length (concat rs))"]
  have "fst (read_qba (of_nat (length (concat rs))) ws) =
        Inr (take (length (concat rs)) (outputBytes ws))"
    by simp
  also have "take (length (concat rs)) (outputBytes ws) = concat rs"
    by (simp add: o min_def)
  finally have many: "fst (read_qba (of_nat (length (concat rs))) ws) = Inr (concat rs)" .
  from q [of maxLen] st rb b r many show ?thesis
    by (simp add: tot min.commute)
qed

text \<open>The equations that run the reads on a concrete buffer.\<close>

lemmas buffer_eval =
  read_qba_def read_buf_def read_loop.simps Let_def

text \<open>
  The buffer that holds "Hello" in two chunks: read byte by byte, read with the maxima
  2, 0 and 7, and read at once.
\<close>

lemma partial_reads_hello:
  "buffer_ok ws_hello \<and>
   buffers ws_hello = [[0x48], [0x65, 0x6C, 0x6C, 0x6F]] \<and>
   fst (read_many [1, 1, 1, 1, 1] ws_hello) = Inr [[0x48], [0x65], [0x6C], [0x6C], [0x6F]] \<and>
   fst (read_many [2, 0, 7] ws_hello) = Inr [[0x48, 0x65], [], [0x6C, 0x6C, 0x6F]] \<and>
   fst (read_qba 5 ws_hello) = Inr [0x48, 0x65, 0x6C, 0x6C, 0x6F] \<and>
   fst (read_qba 3 ws_hello) = Inr [0x48, 0x65, 0x6C] \<and>
   bytesInBuffers (snd (read_qba 3 ws_hello)) = 2 \<and>
   fst (read_buf 3 ws_hello) = 3"
proof -
  have w: "ws_hello = ws_open\<lparr>mask_key := hello_key, maskIndex := 1,
                buffers := [[0x48], [0x65, 0x6C, 0x6C, 0x6F]], bytesInBuffers := 5\<rparr>"
    by (simp add: ws_hello_def feed_all_def decoder_eval hello_chunks_def hello_key_def
          ws_open_def ws_init_def sock_empty_def)
  have ok: "buffer_ok ws_hello"
    by (simp add: w buffer_ok_def outputBytes_def ws_open_def ws_init_def)
  have sm: "unat (bytesInBuffers ws_hello) < 2 ^ 31"
    by (simp add: w ws_open_def ws_init_def)
  have c: "outputBytes ws_hello = [0x48, 0x65, 0x6C, 0x6C, 0x6F]"
    by (simp add: w outputBytes_def ws_open_def ws_init_def)
  have m1: "fst (read_many [1, 1, 1, 1, 1] ws_hello) = Inr [[0x48], [0x65], [0x6C], [0x6C], [0x6F]]"
    by (simp add: w buffer_eval ws_open_def ws_init_def)
  have m2: "fst (read_many [2, 0, 7] ws_hello) = Inr [[0x48, 0x65], [], [0x6C, 0x6C, 0x6F]]"
    by (simp add: w buffer_eval ws_open_def ws_init_def)
  from partial_reads_below_int_max [OF ok sm, of 3 "[]"]
    partial_reads_below_int_max [OF ok sm, of 5 "[]"]
    ok c m1 m2 show ?thesis
    by (simp add: w ws_open_def ws_init_def)
qed

text \<open>
  Claim C9 fails where the array does not fit. The output buffer holds two chunks of
  \<open>2 ^ 30\<close> bytes and satisfies its invariant, and \<open>read\<close> is called with the maximum
  length \<open>2 ^ 31\<close>. The target is \<open>2 ^ 31\<close>, which is \<open>- 2 ^ 31\<close> as an \<^verbatim>\<open>int\<close>, so the
  array is empty; the first overload is told to copy \<open>2 ^ 31\<close> bytes and does copy
  them, past the end of the array. The same buffer read with a maximum length of
  \<open>2 ^ 31 - 1\<close> returns that many bytes.
\<close>

theorem read_overrun:
  "buffer_ok ws_2GiB \<and>
   bytesAvailable ws_2GiB = 0x80000000 \<and>
   sint (ucast (0x80000000 :: 64 word) :: 32 word) = - 2147483648 \<and>
   fst (read_qba 0x80000000 ws_2GiB) = Inl BufferOverrun \<and>
   fst (read_buf 0x80000000 ws_2GiB) = 0x80000000 \<and>
   length (fst (snd (read_buf 0x80000000 ws_2GiB))) = 2147483648 \<and>
   fst (read_qba 0x7FFFFFFF ws_2GiB) = Inr (replicate 2147483647 0)"
proof -
  have ok: "buffer_ok ws_2GiB"
    by (simp add: buffer_ok_def outputBytes_def ws_2GiB_def ws_open_def ws_init_def)
  have c: "outputBytes ws_2GiB = replicate 2147483648 0"
    by (simp add: outputBytes_def ws_2GiB_def ws_open_def ws_init_def flip: replicate_add)
  have a: "bytesAvailable ws_2GiB = 0x80000000"
    by (simp add: bytesAvailable_def ws_2GiB_def)
  have n: "sint (ucast (0x80000000 :: 64 word) :: 32 word) = - 2147483648"
    by simp
  from read_qba_state [OF ok, of "0x80000000"]
  have q: "fst (read_qba 0x80000000 ws_2GiB) = Inl BufferOverrun"
    by (simp add: c)
  from read_buf_spec [OF ok, of "0x80000000"]
  have b: "fst (read_buf 0x80000000 ws_2GiB) = 0x80000000"
    and l: "length (fst (snd (read_buf 0x80000000 ws_2GiB))) = 2147483648"
    by (auto simp: c)
  from read_qba_state [OF ok, of "0x7FFFFFFF"]
  have q': "fst (read_qba 0x7FFFFFFF ws_2GiB) = Inr (replicate 2147483647 0)"
    by (simp add: c)
  from ok a n q b l q' show ?thesis by blast
qed

subsection \<open>The engine keeps the invariant\<close>

lemma buffer_ok_append:
  assumes "buffer_ok ws" and "length (concat (buffers ws)) + length c < 2 ^ 64"
    and b: "buffers ws' = buffers ws @ [c]"
    and t: "bytesInBuffers ws' = bytesInBuffers ws + of_nat (length c)"
    and f: "buffersFirstConsumed ws' = buffersFirstConsumed ws"
  shows "buffer_ok ws'"
proof -
  from assms(1) have tot: "unat (bytesInBuffers ws) = length (outputBytes ws)"
    and hd: "case buffers ws of [] \<Rightarrow> buffersFirstConsumed ws = 0
             | b # bs \<Rightarrow> unat (buffersFirstConsumed ws) \<le> length b"
    by (simp_all add: buffer_ok_def)
  have le: "unat (buffersFirstConsumed ws) \<le> length (concat (buffers ws))"
    using hd by (cases "buffers ws") simp_all
  have "length (outputBytes ws) + length c < 2 ^ 64"
    using assms(2) by (simp add: outputBytes_def)
  then have "unat (bytesInBuffers ws) + unat (of_nat (length c) :: 64 word) < 2 ^ 64"
    by (simp add: tot unat_of_nat64)
  then have "unat (bytesInBuffers ws + of_nat (length c)) =
             unat (bytesInBuffers ws) + unat (of_nat (length c) :: 64 word)"
    by (simp add: unat_add_lem [THEN iffD1])
  also have "\<dots> = length (outputBytes ws) + length c"
    using assms(2) by (simp add: tot unat_of_nat64)
  finally have "unat (bytesInBuffers ws + of_nat (length c)) =
      length (drop (unat (buffersFirstConsumed ws)) (concat (buffers ws) @ c))"
    using le by (simp add: outputBytes_def)
  with assms(2) hd show ?thesis
    by (cases "buffers ws") (simp_all add: buffer_ok_def outputBytes_def b t f)
qed

lemma openStep_buffer_ok:
  assumes "buffer_ok ws" and "room (ws, sock)"
    and "openStep (ws, sock) = Return (ws', sock') \<or> openStep (ws, sock) = Continue (ws', sock')"
  shows "buffer_ok ws' \<and> room (ws', sock')"
proof (cases ws sock rule: step_cases)
  case short
  with assms show ?thesis by (simp add: openStep_short)
next
  case part
  let ?n = "length (readBuffer sock)"
  let ?c = "unmask_bytes (take ?n (readBuffer sock)) (mask_key ws) (maskIndex ws)"
  from part have s: "openStep (ws, sock) =
         Continue (ws\<lparr>nextLength := nextLength ws - of_nat ?n,
                      maskIndex := index_after (take ?n (readBuffer sock)) (maskIndex ws),
                      buffers := buffers ws @ [?c],
                      bytesInBuffers := bytesInBuffers ws + of_nat ?n\<rparr>,
                   sock\<lparr>readBuffer := drop ?n (readBuffer sock)\<rparr>)"
    by (intro openStep_partial) simp_all
  have l: "length ?c = ?n" by (simp add: length_unmask_bytes)
  from assms(2) have "length (concat (buffers ws)) + length ?c < 2 ^ 64"
    by (simp add: room_def length_unmask_bytes)
  from buffer_ok_append [OF assms(1) this]
  have "buffer_ok (ws\<lparr>nextLength := nextLength ws - of_nat ?n,
                      maskIndex := index_after (take ?n (readBuffer sock)) (maskIndex ws),
                      buffers := buffers ws @ [?c],
                      bytesInBuffers := bytesInBuffers ws + of_nat ?n\<rparr>)"
    by (simp add: length_unmask_bytes)
  with assms(2,3) s show ?thesis
    by (auto simp: room_def length_unmask_bytes)
next
  case full
  show ?thesis
  proof (cases "nextAction ws = ReadPayload \<and> nextPayload ws = Data \<and> nextLength ws \<noteq> 0")
    case True
    let ?n = "unat (nextLength ws)"
    let ?c = "unmask_bytes (take ?n (readBuffer sock)) (mask_key ws) (maskIndex ws)"
    from True full have n: "0 < ?n" "?n \<le> length (readBuffer sock)"
      by (simp_all add: needs_full_def bytesAvailable_sock_def unat_gt_0)
    with True have s: "openStep (ws, sock) =
         Continue (ws\<lparr>nextLength := nextLength ws - of_nat ?n,
                      maskIndex := index_after (take ?n (readBuffer sock)) (maskIndex ws),
                      buffers := buffers ws @ [?c],
                      bytesInBuffers := bytesInBuffers ws + of_nat ?n\<rparr>,
                   sock\<lparr>readBuffer := drop ?n (readBuffer sock)\<rparr>)"
      by (intro openStep_partial) simp_all
    have l: "length ?c = ?n" using n by (simp add: length_unmask_bytes)
    from assms(2) n have "length (concat (buffers ws)) + length ?c < 2 ^ 64"
      by (simp add: room_def length_unmask_bytes)
    from buffer_ok_append [OF assms(1) this] n
    have "buffer_ok (ws\<lparr>nextLength := nextLength ws - of_nat ?n,
                      maskIndex := index_after (take ?n (readBuffer sock)) (maskIndex ws),
                      buffers := buffers ws @ [?c],
                      bytesInBuffers := bytesInBuffers ws + of_nat ?n\<rparr>)"
      by (simp add: length_unmask_bytes)
    with assms(2,3) s n show ?thesis
      by (auto simp: room_def length_unmask_bytes)
  next
    case False
    have keep: "buffers ws' = buffers ws \<and> bytesInBuffers ws' = bytesInBuffers ws \<and>
          buffersFirstConsumed ws' = buffersFirstConsumed ws \<and>
          length (readBuffer sock') \<le> length (readBuffer sock)"
    proof (cases "nextAction ws")
      case ReadOpcodeAnd1ByteLength
      with assms(3) show ?thesis
        by (auto simp: openStep_def readOpcodeAnd1ByteLength_def readMaskBitAndLength_def Let_def
              case_prod_beta read_sock_def write_sock_def split: if_splits)
    next
      case ReadPayload
      with assms(3) False show ?thesis
        by (cases "nextPayload ws")
           (auto simp: openStep_def readPayload_def Let_def case_prod_beta unmask_alt read_sock_def
              write_sock_def writeLength_def split: if_splits)
    qed (use assms(3) in \<open>auto simp: openStep_def Let_def case_prod_beta read_sock_def
            split: if_splits\<close>)
    with assms(1,2) show ?thesis
      by (auto simp: buffer_ok_def outputBytes_def room_def split: list.splits)
  qed
qed

text \<open>The decoder keeps the invariant of the output buffer, as long as the byte count fits.\<close>

lemma socketReadOpen_buffer_ok:
  "buffer_ok (fst st) \<Longrightarrow> room st \<Longrightarrow>
   buffer_ok (fst (socketReadOpen st)) \<and> room (socketReadOpen st)"
proof (induction st rule: socketReadOpen.induct)
  case (1 st)
  show ?case
  proof (cases "openStep st")
    case (Return st')
    with openStep_buffer_ok [of "fst st" "snd st" "fst st'" "snd st'"] "1.prems" show ?thesis
      by (simp add: socketReadOpen.simps [of st])
  next
    case (Continue st')
    with openStep_buffer_ok [of "fst st" "snd st" "fst st'" "snd st'"] "1.prems"
    have "buffer_ok (fst st')" "room st'" by simp_all
    with "1.IH" [OF Continue] Continue show ?thesis
      by (simp add: socketReadOpen.simps [of st])
  qed
qed

lemma buffer_ok_init: "buffer_ok ws_init"
  by (simp add: buffer_ok_def outputBytes_def ws_init_def)

lemma buffer_ok_cong:
  assumes "buffers ws' = buffers ws" and "bytesInBuffers ws' = bytesInBuffers ws"
    and "buffersFirstConsumed ws' = buffersFirstConsumed ws"
  shows "buffer_ok ws' = buffer_ok ws"
  using assms by (simp add: buffer_ok_def outputBytes_def split: list.splits)

lemma handshakeLine_buffer:
  assumes "handshakeLine qt lineAscii (ws, sock) = Return (ws', sock') \<or>
           handshakeLine qt lineAscii (ws, sock) = Continue (ws', sock')"
  shows "buffers ws' = buffers ws \<and> bytesInBuffers ws' = bytesInBuffers ws \<and>
         buffersFirstConsumed ws' = buffersFirstConsumed ws \<and> readBuffer sock' = readBuffer sock"
  using assms
  by (auto simp: handshakeLine_def Let_def write_sock_def split: if_splits option.splits)

lemma readLine_sock_length:
  "length (readBuffer (snd (readLine_sock sock))) \<le> length (readBuffer sock)"
proof -
  have "length (tl (dropWhile (\<lambda>b. b \<noteq> 0x0A) (readBuffer sock)))
        \<le> length (dropWhile (\<lambda>b. b \<noteq> 0x0A) (readBuffer sock))"
    by simp
  also have "\<dots> \<le> length (readBuffer sock)"
    by (rule length_dropWhile_le)
  finally show ?thesis by (simp add: readLine_sock_def)
qed

lemma socketReadHandshake_buffer:
  "buffers (fst (socketReadHandshake qt st)) = buffers (fst st) \<and>
   bytesInBuffers (fst (socketReadHandshake qt st)) = bytesInBuffers (fst st) \<and>
   buffersFirstConsumed (fst (socketReadHandshake qt st)) = buffersFirstConsumed (fst st) \<and>
   length (readBuffer (snd (socketReadHandshake qt st))) \<le> length (readBuffer (snd st))"
proof (induction qt st rule: socketReadHandshake.induct)
  case (1 qt ws sock)
  show ?case
  proof (cases "canReadLine_sock sock")
    case False
    then show ?thesis by (simp add: socketReadHandshake.simps [of qt ws sock])
  next
    case True
    show ?thesis
    proof (cases "handshakeLine qt (fst (readLine_sock sock)) (ws, snd (readLine_sock sock))")
      case (Return st')
      with handshakeLine_buffer [of qt "fst (readLine_sock sock)" ws "snd (readLine_sock sock)"
          "fst st'" "snd st'"] True
        readLine_sock_length [of sock] show ?thesis
        by (simp add: socketReadHandshake.simps [of qt ws sock])
    next
      case (Continue st')
      with handshakeLine_buffer [of qt "fst (readLine_sock sock)" ws "snd (readLine_sock sock)"
          "fst st'" "snd st'"] "1.IH" [of st'] True
        readLine_sock_length [of sock] show ?thesis
        by (simp add: socketReadHandshake.simps [of qt ws sock])
    qed
  qed
qed

text \<open>
  So every call of \<open>socketRead\<close> keeps the invariant of the output buffer, and a buffer
  that the engine has built from an empty one satisfies it.
\<close>

lemma socketRead_buffer_ok:
  assumes "buffer_ok ws" and "room (ws, sock)"
  shows "buffer_ok (fst (socketRead qt (ws, sock))) \<and> room (socketRead qt (ws, sock))"
proof -
  let ?ws = "if wsState ws = None_state then ws\<lparr>wsState := Handshake\<rparr> else ws"
  let ?h = "if wsState ?ws = Handshake then socketReadHandshake qt (?ws, sock) else (?ws, sock)"
  let ?o = "if wsState (fst ?h) = Open then socketReadOpen ?h else ?h"
  have r: "socketRead qt (ws, sock) = ?o"
    by (simp add: socketRead_def Let_def case_prod_beta)
  have k: "buffers (fst ?h) = buffers ws \<and> bytesInBuffers (fst ?h) = bytesInBuffers ws \<and>
        buffersFirstConsumed (fst ?h) = buffersFirstConsumed ws \<and>
        length (readBuffer (snd ?h)) \<le> length (readBuffer sock)"
    using socketReadHandshake_buffer [of qt "(?ws, sock)"] by auto
  then have "buffer_ok (fst ?h)"
    using assms(1) buffer_ok_cong [of "fst ?h" ws] by blast
  moreover from k assms(2) have "room ?h"
    by (simp add: room_def)
  ultimately have "buffer_ok (fst ?o) \<and> room ?o"
    using socketReadOpen_buffer_ok [of ?h] by simp
  then show ?thesis
    by (simp only: r)
qed

section \<open>The handshake key\<close>

text \<open>The key line that passes the length test stores the token and lets the loop go on.\<close>

lemma handshakeLine_key:
  assumes "startsWith qt (fromUtf8 qt lineAscii) ''Sec-WebSocket-Key:''"
    and "\<not> int (length (fromUtf8 qt lineAscii)) - 18 < 26"
  shows "handshakeLine qt lineAscii (ws, sock) =
         Continue
           (ws\<lparr>webSocketAccept :=
                 Some (toBase64 (sha1 (toUtf8 qt (trimmed qt (drop 18 (fromUtf8 qt lineAscii))) @
                                       magicSequence)))\<rparr>,
            sock)"
proof -
  from assms(2) have "take (nat (int (length (fromUtf8 qt lineAscii)) - 18))
        (drop 18 (fromUtf8 qt lineAscii)) = drop 18 (fromUtf8 qt lineAscii)"
    by simp
  with assms show ?thesis
    by (simp add: handshakeLine_def Let_def)
qed

lemma handshakeLine_short_key:
  assumes "startsWith qt (fromUtf8 qt lineAscii) ''Sec-WebSocket-Key:''"
    and "int (length (fromUtf8 qt lineAscii)) - 18 < 26"
  shows "handshakeLine qt lineAscii (ws, sock) = Return (ws\<lparr>wsState := Error\<rparr>, sock)"
  using assms by (simp add: handshakeLine_def Let_def)

lemma socketReadHandshake_Return:
  assumes "canReadLine_sock sock"
    and "handshakeLine qt (fst (readLine_sock sock)) (ws, snd (readLine_sock sock)) = Return st'"
  shows "socketReadHandshake qt (ws, sock) = st'"
  using assms by (simp add: socketReadHandshake.simps [of qt ws sock])

lemma socketReadHandshake_Continue:
  assumes "canReadLine_sock sock"
    and "handshakeLine qt (fst (readLine_sock sock)) (ws, snd (readLine_sock sock)) = Continue st'"
  shows "socketReadHandshake qt (ws, sock) = socketReadHandshake qt st'"
  using assms by (simp add: socketReadHandshake.simps [of qt ws sock])

text \<open>
  Claim C7, as the code has it. The test of a \<open>Sec-WebSocket-Key\<close> line is on what
  follows the 18 characters of the header name: the value, the white space around it
  and the line terminator, counted together. If these are fewer than 26 characters,
  which is less than a value of 24 characters and \<^verbatim>\<open>\r\n\<close> take, the line ends the
  handshake in \<open>Error\<close>; \<open>socketRead\<close> then returns at once, with nothing written
  and the rest of the header still queued. The test has no upper bound: a line of 26
  or more characters there whose trimmed value has 24 characters or more is accepted,
  and the state stays as it is.
\<close>

theorem short_key_rejected:
  assumes "startsWith qt (fromUtf8 qt lineAscii) ''Sec-WebSocket-Key:''"
  shows "(int (length (fromUtf8 qt lineAscii)) - 18 < 26 \<longrightarrow>
            handshakeLine qt lineAscii (ws, sock) = Return (ws\<lparr>wsState := Error\<rparr>, sock)) \<and>
         (int (length (fromUtf8 qt lineAscii)) - 18 < 26 \<and> wsState ws = Handshake \<and>
          canReadLine_sock sock \<and> fst (readLine_sock sock) = lineAscii \<longrightarrow>
            socketRead qt (ws, sock) = (ws\<lparr>wsState := Error\<rparr>, snd (readLine_sock sock)) \<and>
            written (snd (socketRead qt (ws, sock))) = written sock) \<and>
         (\<not> int (length (fromUtf8 qt lineAscii)) - 18 < 26 \<and>
          24 \<le> length (trimmed qt (drop 18 (fromUtf8 qt lineAscii))) \<longrightarrow>
            flow_state (handshakeLine qt lineAscii (ws, sock)) = wsState ws)"
proof (intro conjI impI)
  assume "int (length (fromUtf8 qt lineAscii)) - 18 < 26"
  with assms show "handshakeLine qt lineAscii (ws, sock) = Return (ws\<lparr>wsState := Error\<rparr>, sock)"
    by (rule handshakeLine_short_key)
next
  assume a: "int (length (fromUtf8 qt lineAscii)) - 18 < 26 \<and> wsState ws = Handshake \<and>
          canReadLine_sock sock \<and> fst (readLine_sock sock) = lineAscii"
  with assms have "handshakeLine qt (fst (readLine_sock sock)) (ws, snd (readLine_sock sock)) =
        Return (ws\<lparr>wsState := Error\<rparr>, snd (readLine_sock sock))"
    by (simp add: handshakeLine_short_key)
  with a have "socketReadHandshake qt (ws, sock) = (ws\<lparr>wsState := Error\<rparr>, snd (readLine_sock sock))"
    by (simp add: socketReadHandshake_Return)
  with a show r: "socketRead qt (ws, sock) = (ws\<lparr>wsState := Error\<rparr>, snd (readLine_sock sock))"
    by (simp add: socketRead_def)
  show "written (snd (socketRead qt (ws, sock))) = written sock"
    by (simp add: r readLine_sock_def)
next
  assume "\<not> int (length (fromUtf8 qt lineAscii)) - 18 < 26 \<and>
          24 \<le> length (trimmed qt (drop 18 (fromUtf8 qt lineAscii)))"
  with assms show "flow_state (handshakeLine qt lineAscii (ws, sock)) = wsState ws"
    by (simp add: handshakeLine_key flow_state_def)
qed

text \<open>The equations that run the handshake on concrete header lines.\<close>

lemmas handshake_eval =
  feed_def socketRead_def receive_def socketReadHandshake.simps handshakeLine_def
  canReadLine_sock_def readLine_sock_def write_sock_def ascii_ops_def toLower_ascii_def
  isSpace_ascii_def bytes_of_def Let_def

text \<open>
  The theorem at a key of 22 characters, which is refused, and at a key of 25
  characters, which is not.
\<close>

theorem short_key_rejected_witness:
  "startsWith ascii_ops (fromUtf8 ascii_ops short_key_line) ''Sec-WebSocket-Key:'' \<and>
   int (length (fromUtf8 ascii_ops short_key_line)) - 18 < 26 \<and>
   wsState (ws_init\<lparr>wsState := Handshake\<rparr>) = Handshake \<and>
   canReadLine_sock (receive (short_key_line @ CRLF) sock_empty) \<and>
   fst (readLine_sock (receive (short_key_line @ CRLF) sock_empty)) = short_key_line \<and>
   feed ascii_ops (short_key_line @ CRLF) (ws_init, sock_empty) =
     (ws_init\<lparr>wsState := Error\<rparr>, \<lparr>readBuffer = CRLF, written = []\<rparr>) \<and>
   \<not> int (length (fromUtf8 ascii_ops long_key_line)) - 18 < 26 \<and>
   24 \<le> length (trimmed ascii_ops (drop 18 (fromUtf8 ascii_ops long_key_line))) \<and>
   flow_state (handshakeLine ascii_ops long_key_line (ws_init, sock_empty)) = None_state"
proof -
  let ?ws = "ws_init\<lparr>wsState := Handshake\<rparr>"
  let ?sock = "receive (short_key_line @ CRLF) sock_empty"
  have s: "startsWith ascii_ops (fromUtf8 ascii_ops short_key_line) ''Sec-WebSocket-Key:''"
    by (simp add: ascii_ops_def short_key_line_def bytes_of_def toLower_ascii_def)
  have n: "int (length (fromUtf8 ascii_ops short_key_line)) - 18 < 26"
    by (simp add: ascii_ops_def short_key_line_def bytes_of_def)
  have w: "wsState ?ws = Handshake" by simp
  have c: "canReadLine_sock ?sock"
    by (simp add: canReadLine_sock_def receive_def sock_empty_def CRLF_def)
  have l: "fst (readLine_sock ?sock) = short_key_line"
    by (simp add: readLine_sock_def receive_def sock_empty_def CRLF_def short_key_line_def
          bytes_of_def)
  have r: "snd (readLine_sock ?sock) = \<lparr>readBuffer = CRLF, written = []\<rparr>"
    by (simp add: readLine_sock_def receive_def sock_empty_def CRLF_def short_key_line_def
          bytes_of_def)
  have s': "startsWith ascii_ops (fromUtf8 ascii_ops long_key_line) ''Sec-WebSocket-Key:''"
    by (simp add: ascii_ops_def long_key_line_def bytes_of_def toLower_ascii_def)
  have n': "\<not> int (length (fromUtf8 ascii_ops long_key_line)) - 18 < 26"
    by (simp add: ascii_ops_def long_key_line_def bytes_of_def)
  have t': "24 \<le> length (trimmed ascii_ops (drop 18 (fromUtf8 ascii_ops long_key_line)))"
    by (simp add: ascii_ops_def long_key_line_def bytes_of_def isSpace_ascii_def)
  have i: "socketRead ascii_ops (ws_init, ?sock) = socketRead ascii_ops (?ws, ?sock)"
    by (simp add: socketRead_def ws_init_def)
  have e: "?ws\<lparr>wsState := Error\<rparr> = ws_init\<lparr>wsState := Error\<rparr>" by simp
  from short_key_rejected [OF s, of ?ws ?sock] n w c l
  have "socketRead ascii_ops (?ws, ?sock) = (ws_init\<lparr>wsState := Error\<rparr>, \<lparr>readBuffer = CRLF, written = []\<rparr>)"
    by (simp only: r e)
  moreover from short_key_rejected [OF s', of ws_init sock_empty] n' t'
  have "flow_state (handshakeLine ascii_ops long_key_line (ws_init, sock_empty)) = wsState ws_init"
    by simp
  ultimately show ?thesis
    using s n w c l n' t' by (simp add: feed_def i) (simp add: ws_init_def)
qed

lemmas handshake_done_eval =
  socketReadOpen.simps openStep_def readOpcodeAnd1ByteLength_def bytesAvailable_sock_def

text \<open>
  The claim as stated fails for the longer values: the line with a key of 25
  characters, followed by the empty line, completes the handshake; the state becomes
  \<open>Open\<close> and the response is written.
\<close>

theorem long_key_counterexample:
  "length (trimmed ascii_ops (drop 18 (fromUtf8 ascii_ops long_key_line))) = 25 \<and>
   wsState (fst (feed ascii_ops (long_key_line @ CRLF) (ws_init, sock_empty))) = Open \<and>
   take 4 (written (snd (feed ascii_ops (long_key_line @ CRLF) (ws_init, sock_empty)))) =
     bytes_of ''HTTP''"
  by (simp add: handshake_eval handshake_done_eval long_key_line_def CRLF_def
        serverHeader_def ws_init_def sock_empty_def)

text \<open>
  The test counts the white space around the value with the value. A key of 23
  characters behind a single blank brings the count to 26 and passes, although the
  comment in the source asks for the 24 characters of the key: here the test misses
  the short value it is meant to refuse. The statement above says nothing about such
  lines.
\<close>

lemma key23_passes_length_test:
  "length (trimmed ascii_ops (drop 18 (fromUtf8 ascii_ops key23_line))) = 23 \<and>
   int (length (fromUtf8 ascii_ops key23_line)) - 18 = 26 \<and>
   wsState (fst (feed ascii_ops (key23_line @ CRLF) (ws_init, sock_empty))) = Open"
  by (simp add: handshake_eval handshake_done_eval key23_line_def CRLF_def
        serverHeader_def ws_init_def sock_empty_def)

subsection \<open>Running SHA-1 and Base64\<close>

text \<open>
  Numerals of a word type are kept below \<open>2 ^ n\<close> while the rounds are computed, so
  that the terms stay small.
\<close>

lemma sha1_rounds_numeral:
  "sha1_rounds (numeral n) t w s =
     sha1_rounds (pred_numeral n) (Suc t) (sha1_next w) (sha1_round t (hd w) s)"
  by (simp add: numeral_eq_Suc)

lemma sha1_blocks_numeral:
  "sha1_blocks (numeral n) m = take 64 m # sha1_blocks (pred_numeral n) (drop 64 m)"
  by (simp add: numeral_eq_Suc)

lemma word_numeral_norm:
  "(2::int) ^ LENGTH('a) \<le> numeral n \<Longrightarrow>
   (numeral n :: 'a::len word) = word_of_int (numeral n mod 2 ^ LENGTH('a))"
proof -
  have "(word_of_int (k mod 2 ^ LENGTH('a)) :: 'a word) = word_of_int k" for k
    by (simp add: word_of_int_eq_iff take_bit_eq_mod)
  from this [of "numeral n"] show ?thesis by simp
qed

lemma word_neg_numeral_norm:
  "(- numeral n :: 'a::len word) = word_of_int ((- numeral n) mod 2 ^ LENGTH('a))"
proof -
  have "(word_of_int (k mod 2 ^ LENGTH('a)) :: 'a word) = word_of_int k" for k
    by (simp add: word_of_int_eq_iff take_bit_eq_mod)
  from this [of "- numeral n"] show ?thesis by simp
qed

lemma replicate_numeral_Cons: "replicate (numeral k) x = x # replicate (pred_numeral k) x"
  by (simp add: numeral_eq_Suc)

lemmas sha1_eval =
  sha1_def sha1_pad_def qToBigEndian32 qToBigEndian64 qFromBigEndian_def
  sha1_blocks_numeral sha1_rounds_numeral sha1_next_def rotl32_def sha1_f_def sha1_K_def
  word_numeral_norm word_neg_numeral_norm replicate_numeral_Cons

text \<open>The test vector of FIPS 180, and the hash behind the example of RFC 6455.\<close>

lemma sha1_abc:
  "sha1 (bytes_of ''abc'') =
     [0xA9, 0x99, 0x3E, 0x36, 0x47, 0x06, 0x81, 0x6A, 0xBA, 0x3E,
      0x25, 0x71, 0x78, 0x50, 0xC2, 0x6C, 0x9C, 0xD0, 0xD8, 0x9D]"
  by (simp add: bytes_of_def sha1_eval)

lemma sha1_sample:
  "sha1 (bytes_of ''dGhlIHNhbXBsZSBub25jZQ=='' @ magicSequence) =
     [0xB3, 0x7A, 0x4F, 0x2C, 0xC0, 0x62, 0x4F, 0x16, 0x90, 0xF6,
      0x46, 0x06, 0xCF, 0x38, 0x59, 0x45, 0xB2, 0xBE, 0xC4, 0xEA]"
  by (simp add: bytes_of_def magicSequence_def sha1_eval)

lemma toBase64_sample:
  "toBase64 [0xB3, 0x7A, 0x4F, 0x2C, 0xC0, 0x62, 0x4F, 0x16, 0x90, 0xF6,
      0x46, 0x06, 0xCF, 0x38, 0x59, 0x45, 0xB2, 0xBE, 0xC4, 0xEA] =
   bytes_of ''s3pPLMBiTxaQ9kYGzzhZRbK+xOo=''"
  by (simp add: base64_char_def bytes_of_def)

text \<open>
  Claim C5. A \<open>Sec-WebSocket-Key\<close> line that passes the length test stores, as accept
  token, the Base64 form of the SHA-1 hash of the bytes of the trimmed key followed
  by the 36 bytes \<open>258EAFA5-E914-47DA-95CA-C5AB0DC85B11\<close>; and for the key
  \<open>dGhlIHNhbXBsZSBub25jZQ==\<close> that token is \<open>s3pPLMBiTxaQ9kYGzzhZRbK+xOo=\<close>.
\<close>

theorem accept_token:
  assumes "startsWith qt (fromUtf8 qt lineAscii) ''Sec-WebSocket-Key:''"
    and "\<not> int (length (fromUtf8 qt lineAscii)) - 18 < 26"
  shows "handshakeLine qt lineAscii (ws, sock) =
           Continue
             (ws\<lparr>webSocketAccept :=
                   Some (toBase64 (sha1 (toUtf8 qt (trimmed qt (drop 18 (fromUtf8 qt lineAscii))) @
                                         magicSequence)))\<rparr>,
              sock) \<and>
         magicSequence = bytes_of ''258EAFA5-E914-47DA-95CA-C5AB0DC85B11'' \<and>
         toBase64 (sha1 (bytes_of ''dGhlIHNhbXBsZSBub25jZQ=='' @ magicSequence)) =
           bytes_of ''s3pPLMBiTxaQ9kYGzzhZRbK+xOo=''"
proof (intro conjI)
  show "handshakeLine qt lineAscii (ws, sock) =
           Continue
             (ws\<lparr>webSocketAccept :=
                   Some (toBase64 (sha1 (toUtf8 qt (trimmed qt (drop 18 (fromUtf8 qt lineAscii))) @
                                         magicSequence)))\<rparr>,
              sock)"
    using assms by (rule handshakeLine_key)
  show "magicSequence = bytes_of ''258EAFA5-E914-47DA-95CA-C5AB0DC85B11''"
    by (rule magicSequence_def)
  show "toBase64 (sha1 (bytes_of ''dGhlIHNhbXBsZSBub25jZQ=='' @ magicSequence)) =
           bytes_of ''s3pPLMBiTxaQ9kYGzzhZRbK+xOo=''"
    by (simp only: sha1_sample toBase64_sample)
qed

text \<open>
  The theorem at the header of RFC 6455: the handshake ends \<open>Open\<close>, with that token
  stored and sent in the response.
\<close>

theorem accept_token_witness:
  "startsWith ascii_ops (fromUtf8 ascii_ops sample_key_line) ''Sec-WebSocket-Key:'' \<and>
   \<not> int (length (fromUtf8 ascii_ops sample_key_line)) - 18 < 26 \<and>
   toUtf8 ascii_ops (trimmed ascii_ops (drop 18 (fromUtf8 ascii_ops sample_key_line))) =
     bytes_of ''dGhlIHNhbXBsZSBub25jZQ=='' \<and>
   feed ascii_ops (sample_key_line @ CRLF) (ws_init, sock_empty) =
     (ws_init\<lparr>wsState := Open,
              webSocketAccept := Some (bytes_of ''s3pPLMBiTxaQ9kYGzzhZRbK+xOo='')\<rparr>,
      \<lparr>readBuffer = [],
       written = serverHeader @ bytes_of ''s3pPLMBiTxaQ9kYGzzhZRbK+xOo='' @ CRLF @ CRLF\<rparr>)"
proof -
  let ?ws = "ws_init\<lparr>wsState := Handshake\<rparr>"
  let ?token = "bytes_of ''s3pPLMBiTxaQ9kYGzzhZRbK+xOo=''"
  let ?s1 = "\<lparr>readBuffer = CRLF, written = []\<rparr>"
  have s: "startsWith ascii_ops (fromUtf8 ascii_ops sample_key_line) ''Sec-WebSocket-Key:''"
    by (simp add: ascii_ops_def sample_key_line_def bytes_of_def toLower_ascii_def)
  have n: "\<not> int (length (fromUtf8 ascii_ops sample_key_line)) - 18 < 26"
    by (simp add: ascii_ops_def sample_key_line_def bytes_of_def)
  have k: "toUtf8 ascii_ops (trimmed ascii_ops (drop 18 (fromUtf8 ascii_ops sample_key_line))) =
           bytes_of ''dGhlIHNhbXBsZSBub25jZQ==''"
    by (simp add: ascii_ops_def sample_key_line_def bytes_of_def isSpace_ascii_def)
  note a = accept_token [OF s n, of ?ws ?s1]
  have l1: "handshakeLine ascii_ops sample_key_line (?ws, ?s1) =
            Continue (?ws\<lparr>webSocketAccept := Some ?token\<rparr>, ?s1)"
    using a [THEN conjunct1] a [THEN conjunct2, THEN conjunct2] by (simp only: k)
  have c1: "canReadLine_sock (receive (sample_key_line @ CRLF) sock_empty)"
    by (simp add: canReadLine_sock_def receive_def sock_empty_def CRLF_def)
  have r1: "readLine_sock (receive (sample_key_line @ CRLF) sock_empty) = (sample_key_line, ?s1)"
    by (simp add: readLine_sock_def receive_def sock_empty_def CRLF_def sample_key_line_def
          bytes_of_def)
  have h1: "socketReadHandshake ascii_ops (?ws, receive (sample_key_line @ CRLF) sock_empty) =
            socketReadHandshake ascii_ops (?ws\<lparr>webSocketAccept := Some ?token\<rparr>, ?s1)"
    using c1 by (rule socketReadHandshake_Continue) (simp add: r1 l1)
  have h2: "socketReadHandshake ascii_ops (?ws\<lparr>webSocketAccept := Some ?token\<rparr>, ?s1) =
            (ws_init\<lparr>wsState := Open, webSocketAccept := Some ?token\<rparr>,
             \<lparr>readBuffer = [], written = serverHeader @ ?token @ CRLF @ CRLF\<rparr>)"
    by (simp add: socketReadHandshake.simps handshakeLine_def canReadLine_sock_def
          readLine_sock_def write_sock_def ascii_ops_def toLower_ascii_def CRLF_def Let_def)
  have i: "wsState ws_init = None_state"
    by (simp add: ws_init_def)
  have o: "socketReadOpen (ws_init\<lparr>wsState := Open, webSocketAccept := Some ?token\<rparr>,
             \<lparr>readBuffer = [], written = serverHeader @ ?token @ CRLF @ CRLF\<rparr>) =
           (ws_init\<lparr>wsState := Open, webSocketAccept := Some ?token\<rparr>,
             \<lparr>readBuffer = [], written = serverHeader @ ?token @ CRLF @ CRLF\<rparr>)"
    by (simp add: handshake_done_eval ws_init_def)
  have "feed ascii_ops (sample_key_line @ CRLF) (ws_init, sock_empty) =
     (ws_init\<lparr>wsState := Open, webSocketAccept := Some ?token\<rparr>,
      \<lparr>readBuffer = [], written = serverHeader @ ?token @ CRLF @ CRLF\<rparr>)"
    by (simp add: feed_def socketRead_def i h1 h2 o)
  with s n k show ?thesis by simp
qed

section \<open>The connection state\<close>

lemma state_rank_le: "state_rank s \<le> 3"
  by (cases s) simp_all

lemma forward_refl: "forward s s"
  by (simp add: forward_def)

lemma forward_trans: "forward a b \<Longrightarrow> forward b c \<Longrightarrow> forward a c"
  by (auto simp: forward_def)

lemma read_loop_wsState: "wsState (snd (snd (read_loop ws maxLen len buf))) = wsState ws"
proof (induction ws maxLen len buf rule: read_loop.induct)
  case (1 ws maxLen len buf)
  show ?case
  proof (cases "buffers ws = []")
    case True
    then show ?thesis by (simp add: read_loop.simps [of ws])
  next
    case ne: False
    let ?rem = "(of_nat (length (hd (buffers ws))) :: 64 word) - buffersFirstConsumed ws"
    show ?thesis
    proof (cases "?rem = 0")
      case True
      with "1.IH"(1) [OF ne refl True] ne show ?thesis
        by (simp add: read_loop.simps [of ws])
    next
      case rem: False
      show ?thesis
      proof (cases "maxLen = 0")
        case True
        with ne rem show ?thesis by (simp add: read_loop.simps [of ws])
      next
        case False
        with "1.IH"(2) [OF ne refl rem False refl refl refl refl refl refl refl] ne rem show ?thesis
          by (simp add: read_loop.simps [of ws] Let_def)
      qed
    qed
  qed
qed

lemma read_wsState:
  "wsState (snd (read_qba maxLen ws)) = wsState ws"
  "wsState (snd (snd (read_buf maxLen ws))) = wsState ws"
  by (simp_all add: read_qba_def read_buf_def Let_def case_prod_beta read_loop_wsState)

lemma write_ws_wsState: "wsState (fst (write_ws qbaMsg st)) = wsState (fst st)"
  by (simp add: write_ws_def Let_def case_prod_beta)

lemma handshakeLine_state:
  "handshakeLine qt lineAscii (ws, sock) = Return (ws', sock') \<Longrightarrow>
     wsState ws' = Open \<or> wsState ws' = Error"
  "handshakeLine qt lineAscii (ws, sock) = Continue (ws', sock') \<Longrightarrow> wsState ws' = wsState ws"
  by (auto simp: handshakeLine_def Let_def split: if_splits option.splits)

lemma socketReadHandshake_state:
  "wsState (fst (socketReadHandshake qt st)) = wsState (fst st) \<or>
   wsState (fst (socketReadHandshake qt st)) = Open \<or>
   wsState (fst (socketReadHandshake qt st)) = Error"
proof (induction qt st rule: socketReadHandshake.induct)
  case (1 qt ws sock)
  show ?case
  proof (cases "canReadLine_sock sock")
    case False
    then show ?thesis by (simp add: socketReadHandshake.simps [of qt ws sock])
  next
    case True
    show ?thesis
    proof (cases "handshakeLine qt (fst (readLine_sock sock)) (ws, snd (readLine_sock sock))")
      case (Return st')
      with handshakeLine_state(1) [of qt _ ws _ "fst st'" "snd st'"] True show ?thesis
        by (simp add: socketReadHandshake.simps [of qt ws sock])
    next
      case (Continue st')
      with handshakeLine_state(2) [of qt _ ws _ "fst st'" "snd st'"] "1.IH" [of st'] True
      show ?thesis
        by (simp add: socketReadHandshake.simps [of qt ws sock])
    qed
  qed
qed

lemma socketRead_forward: "forward (wsState ws) (wsState (fst (socketRead qt (ws, sock))))"
proof -
  let ?ws = "if wsState ws = None_state then ws\<lparr>wsState := Handshake\<rparr> else ws"
  let ?h = "if wsState ?ws = Handshake then socketReadHandshake qt (?ws, sock) else (?ws, sock)"
  let ?o = "if wsState (fst ?h) = Open then socketReadOpen ?h else ?h"
  have r: "socketRead qt (ws, sock) = ?o"
    by (simp add: socketRead_def Let_def case_prod_beta)
  have f1: "forward (wsState ws) (wsState ?ws)"
    by (simp add: forward_def)
  have f2: "forward (wsState ?ws) (wsState (fst ?h))"
    using socketReadHandshake_state [of qt "(?ws, sock)"]
    by (auto simp: forward_def)
  have f3: "forward (wsState (fst ?h)) (wsState (fst ?o))"
    using socketReadOpen_state [of ?h]
    by (auto simp: forward_def)
  from f1 f2 f3 show ?thesis
    unfolding r by (blast intro: forward_trans)
qed

lemma apply_op_forward: "forward (wsState (fst st)) (wsState (fst (apply_op qt op st)))"
proof (cases op)
  case (SocketRead bs)
  with socketRead_forward [of "fst st" qt "receive bs (snd st)"] show ?thesis
    by (simp add: feed_def)
qed (simp_all add: read_wsState write_ws_wsState forward_refl)

lemma run_forward: "forward (wsState (fst st)) (wsState (fst (run qt ops st)))"
proof (induction ops rule: rev_induct)
  case Nil
  show ?case by (simp add: run_def forward_refl)
next
  case (snoc op ops)
  have "run qt (ops @ [op]) st = apply_op qt op (run qt ops st)"
    by (simp add: run_def)
  with snoc apply_op_forward [of "run qt ops st" qt op] show ?case
    by (auto intro: forward_trans)
qed

text \<open>
  Claim C8. Over every sequence of operations (\<open>socketRead\<close> with whatever bytes have
  arrived, \<open>write\<close>, and both \<open>read\<close>s), from every state of engine and transport,
  the connection state at the end is the state at the start or one later in the
  order None, Handshake, Open, Closed or Error. From \<open>Closed\<close> and from \<open>Error\<close> it
  never changes, and there \<open>socketRead\<close> returns engine and transport as they are:
  not a byte read, not a byte written. The order has no step back.
\<close>

theorem state_only_moves_forward:
  "forward (wsState ws) (wsState (fst (run qt ops (ws, sock)))) \<and>
   (wsState ws = Closed \<or> wsState ws = Error \<longrightarrow>
      wsState (fst (run qt ops (ws, sock))) = wsState ws \<and>
      socketRead qt (ws, sock) = (ws, sock)) \<and>
   \<not> forward Handshake None_state \<and> \<not> forward Open None_state \<and> \<not> forward Open Handshake \<and>
   \<not> forward Closed Open \<and> \<not> forward Error Open \<and> \<not> forward Closed Error \<and>
   \<not> forward Error Closed"
proof -
  have f: "forward (wsState ws) (wsState (fst (run qt ops (ws, sock))))"
    using run_forward [of "(ws, sock)" qt ops] by simp
  then have "wsState (fst (run qt ops (ws, sock))) = wsState ws"
    if "wsState ws = Closed \<or> wsState ws = Error"
    using that state_rank_le [of "wsState (fst (run qt ops (ws, sock)))"]
    by (auto simp: forward_def)
  with f show ?thesis
    by (auto simp: forward_def socketRead_terminal)
qed

text \<open>
  The theorem along a session that passes through all the states up to \<open>Closed\<close>, and
  at the same session started in \<open>Error\<close>.
\<close>

theorem state_only_moves_forward_witness:
  "wsState (fst (run ascii_ops (take 1 session) (ws_init, sock_empty))) = Handshake \<and>
   wsState (fst (run ascii_ops (take 3 session) (ws_init, sock_empty))) = Open \<and>
   wsState (fst (run ascii_ops (take 6 session) (ws_init, sock_empty))) = Open \<and>
   wsState (fst (run ascii_ops (take 7 session) (ws_init, sock_empty))) = Closed \<and>
   wsState (fst (run ascii_ops session (ws_init, sock_empty))) = Closed \<and>
   forward None_state Closed \<and>
   wsState (ws_open\<lparr>wsState := Error\<rparr>) = Error \<and>
   wsState (fst (run ascii_ops session (ws_open\<lparr>wsState := Error\<rparr>, sock_empty))) = Error \<and>
   socketRead ascii_ops (ws_open\<lparr>wsState := Error\<rparr>, receive hello_frame sock_empty) =
     (ws_open\<lparr>wsState := Error\<rparr>, receive hello_frame sock_empty)"
proof -
  have e: "wsState (ws_open\<lparr>wsState := Error\<rparr>) = Error" by simp
  have t: "wsState (fst (run ascii_ops (take 1 session) (ws_init, sock_empty))) = Handshake"
     "wsState (fst (run ascii_ops (take 3 session) (ws_init, sock_empty))) = Open"
     "wsState (fst (run ascii_ops (take 6 session) (ws_init, sock_empty))) = Open"
     "wsState (fst (run ascii_ops (take 7 session) (ws_init, sock_empty))) = Closed"
    by (simp_all add: run_def session_def handshake_eval decoder_eval buffer_eval write_ws_def
          sample_key_line_def CRLF_def hello_frame_def hello_key_def hello_masked_def
          msgHeader_def ws_init_def sock_empty_def)
  from state_only_moves_forward [of "ws_open\<lparr>wsState := Error\<rparr>" ascii_ops session sock_empty]
    state_only_moves_forward [of "ws_open\<lparr>wsState := Error\<rparr>" ascii_ops session
      "receive hello_frame sock_empty"]
    state_only_moves_forward [of ws_init ascii_ops session sock_empty]
    state_only_moves_forward [of "fst (run ascii_ops (take 7 session) (ws_init, sock_empty))"
       ascii_ops "drop 7 session" "snd (run ascii_ops (take 7 session) (ws_init, sock_empty))"]
  have "wsState (fst (run ascii_ops session (ws_open\<lparr>wsState := Error\<rparr>, sock_empty))) = Error"
    and "socketRead ascii_ops (ws_open\<lparr>wsState := Error\<rparr>, receive hello_frame sock_empty) =
     (ws_open\<lparr>wsState := Error\<rparr>, receive hello_frame sock_empty)"
    and "wsState (fst (run ascii_ops (drop 7 session)
           (run ascii_ops (take 7 session) (ws_init, sock_empty)))) = Closed"
    using t by simp_all
  moreover have "run ascii_ops (drop 7 session) (run ascii_ops (take 7 session) (ws_init, sock_empty)) =
        run ascii_ops session (ws_init, sock_empty)"
    by (simp add: run_def foldl_append [symmetric] del: foldl_append)
  ultimately show ?thesis
    using t e by (simp add: forward_def)
qed

end
